theory Spec2Isabelle
  imports Main
begin

section \<open>The store: three tables and their row counters\<close>

text \<open>
  \<^verbatim>\<open>db.py\<close> creates three tables. A row of each table is a record here, with one
  field per column; a nullable column is an \<open>option\<close> (\<open>None\<close> is SQL's NULL, which is
  what the driver binds Python's \<open>None\<close> to). The columns \<open>book_id\<close> and \<open>user_id\<close> of
  the table Borrow are written \<open>b_book_id\<close> and \<open>b_user_id\<close>, as the queries write
  \<^verbatim>\<open>b.book_id\<close> and \<^verbatim>\<open>b.user_id\<close>.
\<close>

record book =
  book_id :: int
  title :: string
  author :: string
  year :: "int option"
  available :: int

record user =
  user_id :: int
  name :: string
  phone :: "string option"
  email :: "string option"

record borrow =
  borrow_id :: int
  b_book_id :: int
  b_user_id :: int
  borrow_date :: string
  return_date :: "string option"

text \<open>
  A table is the list of its rows in insertion order. Every primary key is declared
  \<^verbatim>\<open>INTEGER PRIMARY KEY AUTOINCREMENT\<close>, so the store also keeps, for each table, the
  largest key it has ever handed out (SQLite's \<^verbatim>\<open>sqlite_sequence\<close>).

  Keys, years and flags are SQLite integers, modelled by \<open>int\<close>. What is modelled of
  the storage are the constraints that \<^verbatim>\<open>db.py\<close> declares and the connection enforces:
  NOT NULL, UNIQUE, the foreign keys and the key sequences. A failure of the file or of
  the connection itself, and an argument that the driver cannot bind (an integer beyond
  64 bits), are outside the model.
\<close>

record db =
  Books :: "book list"
  Users :: "user list"
  Borrow :: "borrow list"
  seq_Books :: int
  seq_Users :: int
  seq_Borrow :: int

datatype error = ValueError | IntegrityError

text \<open>\<^verbatim>\<open>init_db\<close> on a fresh file: three empty tables, no key handed out yet.\<close>

definition init_db :: db where
  "init_db = \<lparr>Books = [], Users = [], Borrow = [], seq_Books = 0, seq_Users = 0, seq_Borrow = 0\<rparr>"

text \<open>
  The key of a new row: one more than the largest key the table holds or has ever
  handed out, and 1 for a table that never held a row.
\<close>

definition next_rowid :: "int \<Rightarrow> int list \<Rightarrow> int" where
  "next_rowid seq ids = max (seq + 1) (fold max ids 0 + 1)"

section \<open>books.py\<close>

text \<open>
  \<^verbatim>\<open>add_book\<close>: one INSERT with the literal 1 in the column \<open>available\<close>, then the
  commit; the result is \<^verbatim>\<open>cur.lastrowid\<close>.
\<close>

definition add_book :: "string \<Rightarrow> string \<Rightarrow> int option \<Rightarrow> db \<Rightarrow> int \<times> db" where
  "add_book t a y s =
     (let new_id = next_rowid (seq_Books s) (map book_id (Books s));
          row = \<lparr>book_id = new_id, title = t, author = a, year = y, available = 1\<rparr>
      in (new_id, s\<lparr>Books := Books s @ [row], seq_Books := new_id\<rparr>))"

text \<open>
  \<^verbatim>\<open>UPDATE Books SET available = ? WHERE book_id = ?\<close> and the number of rows it
  matched (\<^verbatim>\<open>cur.rowcount\<close>).
\<close>

definition set_available :: "int \<Rightarrow> int \<Rightarrow> db \<Rightarrow> db" where
  "set_available bid v s =
     s\<lparr>Books := map (\<lambda>k. if book_id k = bid then k\<lparr>available := v\<rparr> else k) (Books s)\<rparr>"

definition rowcount_book :: "int \<Rightarrow> db \<Rightarrow> nat" where
  "rowcount_book bid s = length (filter (\<lambda>k. book_id k = bid) (Books s))"

text \<open>
  \<^verbatim>\<open>update_book_availability\<close>: the check of the argument comes before the
  connection is opened, so the ValueError leaves the store as it was.
\<close>

definition update_book_availability :: "int \<Rightarrow> int \<Rightarrow> db \<Rightarrow> (error + bool) \<times> db" where
  "update_book_availability bid v s =
     (if v \<noteq> 0 \<and> v \<noteq> 1 then (Inl ValueError, s)
      else (Inr (rowcount_book bid s > 0), set_available bid v s))"

text \<open>
  \<^verbatim>\<open>delete_book\<close>: first the count of the Borrow rows of the copy, open or closed;
  a positive count closes the connection and returns False. Otherwise the DELETE runs
  and the result is whether it removed a row. With no Borrow row on the copy the
  foreign key of Borrow cannot object to the DELETE.
\<close>

definition borrow_count_of_book :: "int \<Rightarrow> db \<Rightarrow> nat" where
  "borrow_count_of_book bid s = length (filter (\<lambda>r. b_book_id r = bid) (Borrow s))"

definition delete_book :: "int \<Rightarrow> db \<Rightarrow> bool \<times> db" where
  "delete_book bid s =
     (let cnt = borrow_count_of_book bid s
      in if cnt > 0 then (False, s)
         else (rowcount_book bid s > 0,
               s\<lparr>Books := filter (\<lambda>k. book_id k \<noteq> bid) (Books s)\<rparr>))"

section \<open>users.py\<close>

text \<open>
  \<^verbatim>\<open>create_user\<close>: one INSERT. The column \<open>email\<close> is UNIQUE, and SQLite never takes
  two NULLs for equal, so the INSERT raises exactly when the new email is not NULL and a
  row holds it already; nothing is written then.
\<close>

definition email_taken :: "string \<Rightarrow> user list \<Rightarrow> bool" where
  "email_taken e us = (\<exists>u \<in> set us. email u = Some e)"

definition create_user :: "string \<Rightarrow> string option \<Rightarrow> string option \<Rightarrow> db \<Rightarrow> (error + int) \<times> db" where
  "create_user n p e s =
     (if (case e of None \<Rightarrow> False | Some a \<Rightarrow> email_taken a (Users s)) then (Inl IntegrityError, s)
      else let new_id = next_rowid (seq_Users s) (map user_id (Users s));
               row = \<lparr>user_id = new_id, name = n, phone = p, email = e\<rparr>
           in (Inr new_id, s\<lparr>Users := Users s @ [row], seq_Users := new_id\<rparr>))"

text \<open>
  \<^verbatim>\<open>update_user\<close>: with all three arguments None it returns False before it opens
  the connection. Otherwise one UPDATE sets the fields that are not None in the rows of
  the given key; it raises when it would give the row an email that a row of another
  key holds.
\<close>

definition update_user ::
  "int \<Rightarrow> string option \<Rightarrow> string option \<Rightarrow> string option \<Rightarrow> db \<Rightarrow> (error + bool) \<times> db" where
  "update_user uid n p e s =
     (if n = None \<and> p = None \<and> e = None then (Inr False, s)
      else let hit = (\<exists>u \<in> set (Users s). user_id u = uid);
               clash = (case e of None \<Rightarrow> False
                        | Some a \<Rightarrow> email_taken a (filter (\<lambda>u. user_id u \<noteq> uid) (Users s)))
           in if hit \<and> clash then (Inl IntegrityError, s)
              else (Inr hit,
                    s\<lparr>Users := map (\<lambda>u. if user_id u = uid
                          then u\<lparr>name := (case n of None \<Rightarrow> name u | Some x \<Rightarrow> x),
                                 phone := (case p of None \<Rightarrow> phone u | Some x \<Rightarrow> Some x),
                                 email := (case e of None \<Rightarrow> email u | Some x \<Rightarrow> Some x)\<rparr>
                          else u) (Users s)\<rparr>))"

text \<open>
  \<^verbatim>\<open>delete_user\<close>: the count of the member's open Borrow rows; a positive count
  returns False. Otherwise the DELETE runs. The connection enforces foreign keys, so the
  DELETE of a row that a (closed) Borrow row still references raises and removes
  nothing.
\<close>

definition delete_user :: "int \<Rightarrow> db \<Rightarrow> (error + bool) \<times> db" where
  "delete_user uid s =
     (let active_count = length (filter (\<lambda>r. b_user_id r = uid \<and> return_date r = None) (Borrow s))
      in if active_count > 0 then (Inr False, s)
         else if (\<exists>u \<in> set (Users s). user_id u = uid) \<and> (\<exists>r \<in> set (Borrow s). b_user_id r = uid)
              then (Inl IntegrityError, s)
         else (Inr (\<exists>u \<in> set (Users s). user_id u = uid),
               s\<lparr>Users := filter (\<lambda>u. user_id u \<noteq> uid) (Users s)\<rparr>))"

section \<open>borrow.py\<close>

text \<open>The three statements \<^verbatim>\<open>borrow_book\<close> runs, each on the store it is given.\<close>

definition user_exists :: "int \<Rightarrow> db \<Rightarrow> bool" where
  "user_exists uid s = (\<exists>u \<in> set (Users s). user_id u = uid)"

text \<open>
  \<^verbatim>\<open>UPDATE Books SET available = 0 WHERE book_id = ? AND available = 1\<close>, with its
  row count.
\<close>

definition mark_unavailable :: "int \<Rightarrow> db \<Rightarrow> nat \<times> db" where
  "mark_unavailable bid s =
     (length (filter (\<lambda>k. book_id k = bid \<and> available k = 1) (Books s)),
      s\<lparr>Books := map (\<lambda>k. if book_id k = bid \<and> available k = 1 then k\<lparr>available := 0\<rparr> else k)
                     (Books s)\<rparr>)"

text \<open>
  \<^verbatim>\<open>INSERT INTO Borrow (book_id, user_id, borrow_date, return_date) VALUES (?, ?, ?, NULL)\<close>.
  The table declares \<open>borrow_date\<close> NOT NULL and both references as foreign keys, and
  the connection enforces them: the INSERT raises on a NULL date and on a reference
  that resolves to no row.
\<close>

definition insert_borrow :: "int \<Rightarrow> int \<Rightarrow> string option \<Rightarrow> db \<Rightarrow> error + (int \<times> db)" where
  "insert_borrow bid uid d s =
     (case d of
        None \<Rightarrow> Inl IntegrityError
      | Some date \<Rightarrow>
          if \<not> (\<exists>k \<in> set (Books s). book_id k = bid) \<or> \<not> user_exists uid s then Inl IntegrityError
          else let new_id = next_rowid (seq_Borrow s) (map borrow_id (Borrow s));
                   row = \<lparr>borrow_id = new_id, b_book_id = bid, b_user_id = uid,
                          borrow_date = date, return_date = None\<rparr>
               in Inr (new_id, s\<lparr>Borrow := Borrow s @ [row], seq_Borrow := new_id\<rparr>))"

text \<open>
  \<^verbatim>\<open>borrow_book\<close>. The two early returns leave the \<^verbatim>\<open>try\<close> without a commit, and
  \<^verbatim>\<open>conn.close()\<close> in the \<^verbatim>\<open>finally\<close> drops what is uncommitted: the store stays
  \<open>s\<close>. An exception of the INSERT reaches the handler, which rolls back to \<open>s\<close> and
  raises again. Only the last branch commits.
\<close>

definition borrow_book :: "int \<Rightarrow> int \<Rightarrow> string option \<Rightarrow> db \<Rightarrow> (error + int option) \<times> db" where
  "borrow_book uid bid d s =
     (if \<not> user_exists uid s then (Inr None, s)
      else let (rowcount, s1) = mark_unavailable bid s
           in if rowcount = 0 then (Inr None, s)
              else (case insert_borrow bid uid d s1 of
                      Inl e \<Rightarrow> (Inl e, s)
                    | Inr (new_id, s2) \<Rightarrow> (Inr (Some new_id), s2)))"

text \<open>
  \<^verbatim>\<open>SELECT book_id FROM Borrow WHERE borrow_id = ? AND return_date IS NULL\<close>: the
  open rows of a key.
\<close>

definition open_rows :: "int \<Rightarrow> db \<Rightarrow> borrow list" where
  "open_rows rid s = filter (\<lambda>r. borrow_id r = rid \<and> return_date r = None) (Borrow s)"

text \<open>
  \<^verbatim>\<open>UPDATE Borrow SET return_date = ? WHERE borrow_id = ? AND return_date IS NULL\<close>,
  with its row count. SQLite counts every row the WHERE clause selects, whatever value
  is written.
\<close>

definition close_borrow :: "int \<Rightarrow> string option \<Rightarrow> db \<Rightarrow> nat \<times> db" where
  "close_borrow rid d s =
     (length (filter (\<lambda>r. borrow_id r = rid \<and> return_date r = None) (Borrow s)),
      s\<lparr>Borrow := map (\<lambda>r. if borrow_id r = rid \<and> return_date r = None
                            then r\<lparr>return_date := d\<rparr> else r) (Borrow s)\<rparr>)"

text \<open>
  \<^verbatim>\<open>return_book\<close>. \<^verbatim>\<open>fetchone\<close> gives the first open row of the key, or None. After
  the close, the UPDATE of Books runs and its row count is not read; then the commit
  and \<^verbatim>\<open>return True\<close>. No statement of this function can violate a constraint, so the
  handler is never entered; the result type keeps the error side all the same.
\<close>

definition return_book :: "int \<Rightarrow> string option \<Rightarrow> db \<Rightarrow> (error + bool) \<times> db" where
  "return_book rid d s =
     (case open_rows rid s of
        [] \<Rightarrow> (Inr False, s)
      | row # _ \<Rightarrow>
          let bid = b_book_id row;
              (rowcount, s1) = close_borrow rid d s
          in if rowcount = 0 then (Inr False, s)
             else (Inr True, set_available bid 1 s1))"

section \<open>reports.py\<close>

text \<open>
  \<^verbatim>\<open>most_borrowed_books\<close> is one query. Its FROM clause is the inner join of Borrow
  with Books on the key of the copy.
\<close>

definition borrow_join_books :: "db \<Rightarrow> (borrow \<times> book) list" where
  "borrow_join_books s =
     concat (map (\<lambda>r. map (Pair r) (filter (\<lambda>k. book_id k = b_book_id r) (Books s))) (Borrow s))"

text \<open>
  \<^verbatim>\<open>GROUP BY bk.title, bk.author\<close> with \<^verbatim>\<open>COUNT(b.borrow_id)\<close>: one entry for each
  pair \<open>(title, author)\<close> of the joined rows, with the number of joined rows of that
  pair (\<open>borrow_id\<close> is a primary key, never NULL, so the count takes them all).
\<close>

definition group_count :: "(borrow \<times> book) list \<Rightarrow> string \<times> string \<Rightarrow> nat" where
  "group_count j g = length (filter (\<lambda>(r, k). (title k, author k) = g) j)"

definition borrow_groups :: "db \<Rightarrow> (string \<times> string \<times> nat) list" where
  "borrow_groups s =
     map (\<lambda>g. (fst g, snd g, group_count (borrow_join_books s) g))
         (remdups (map (\<lambda>(r, k). (title k, author k)) (borrow_join_books s)))"

text \<open>
  \<^verbatim>\<open>ORDER BY borrow_count DESC\<close>. SQL leaves the order among equal counts open; here
  entries of equal count keep the order of the groups.
\<close>

definition most_borrowed_books :: "db \<Rightarrow> (string \<times> string \<times> nat) list" where
  "most_borrowed_books s = rev (sort_key (\<lambda>(t, a, c). c) (rev (borrow_groups s)))"

section \<open>Sequences of calls\<close>

text \<open>
  The calls that write to the store, as data, so that a sequence of them can be run. The
  remaining functions of the modules only read.
\<close>

datatype call =
    Add_book string string "int option"
  | Update_book_availability int int
  | Delete_book int
  | Create_user string "string option" "string option"
  | Update_user int "string option" "string option" "string option"
  | Delete_user int
  | Borrow_book int int "string option"
  | Return_book int "string option"

fun exec :: "call \<Rightarrow> db \<Rightarrow> db" where
  "exec (Add_book t a y) s = snd (add_book t a y s)"
| "exec (Update_book_availability bid v) s = snd (update_book_availability bid v s)"
| "exec (Delete_book bid) s = snd (delete_book bid s)"
| "exec (Create_user n p e) s = snd (create_user n p e s)"
| "exec (Update_user uid n p e) s = snd (update_user uid n p e s)"
| "exec (Delete_user uid) s = snd (delete_user uid s)"
| "exec (Borrow_book uid bid d) s = snd (borrow_book uid bid d s)"
| "exec (Return_book rid d) s = snd (return_book rid d s)"

fun run :: "call list \<Rightarrow> db \<Rightarrow> db" where
  "run [] s = s"
| "run (c # cs) s = run cs (exec c s)"

text \<open>The number of open Borrow rows of a copy.\<close>

definition open_count :: "int \<Rightarrow> db \<Rightarrow> nat" where
  "open_count bid s = length (filter (\<lambda>r. b_book_id r = bid \<and> return_date r = None) (Borrow s))"

text \<open>A copy can be borrowed when a row of its key has the flag 1.\<close>

definition available_row :: "int \<Rightarrow> db \<Rightarrow> bool" where
  "available_row bid s = (\<exists>k \<in> set (Books s). book_id k = bid \<and> available k = 1)"

text \<open>The flags of the rows of a copy.\<close>

definition copy_flags :: "int \<Rightarrow> db \<Rightarrow> int list" where
  "copy_flags bid s = map available (filter (\<lambda>k. book_id k = bid) (Books s))"

text \<open>
  The store that a successful \<^verbatim>\<open>borrow_book\<close> commits: its UPDATE and its INSERT
  applied to \<open>s\<close>.
\<close>

definition borrowed :: "int \<Rightarrow> int \<Rightarrow> string \<Rightarrow> db \<Rightarrow> db" where
  "borrowed uid bid date s =
     (let new_id = next_rowid (seq_Borrow s) (map borrow_id (Borrow s))
      in s\<lparr>Books := map (\<lambda>k. if book_id k = bid \<and> available k = 1 then k\<lparr>available := 0\<rparr> else k) (Books s),
           Borrow := Borrow s @ [\<lparr>borrow_id = new_id, b_book_id = bid, b_user_id = uid,
                                  borrow_date = date, return_date = None\<rparr>],
           seq_Borrow := new_id\<rparr>)"

text \<open>
  The calls of the ledger proper: every call but the administrative override
  \<^verbatim>\<open>update_book_availability\<close> and a \<^verbatim>\<open>return_book\<close> that is given no date.
\<close>

fun ledger_call :: "call \<Rightarrow> bool" where
  "ledger_call (Update_book_availability bid v) = False"
| "ledger_call (Return_book rid None) = False"
| "ledger_call c = True"

text \<open>
  What these calls keep true of the store: no copy has two open Borrow rows, the copy of
  an open row is not available, and every Borrow row references a row of Books.
\<close>

definition ledger_inv :: "db \<Rightarrow> bool" where
  "ledger_inv s =
     ((\<forall>b. open_count b s \<le> 1) \<and>
      (\<forall>r \<in> set (Borrow s). return_date r = None \<longrightarrow> \<not> available_row (b_book_id r) s) \<and>
      (\<forall>r \<in> set (Borrow s). \<exists>k \<in> set (Books s). book_id k = b_book_id r))"

section \<open>Example stores\<close>

text \<open>The store of \<^verbatim>\<open>main.py\<close> after its three \<^verbatim>\<open>add_book\<close> and two \<^verbatim>\<open>create_user\<close> calls.\<close>

definition stocked :: db where
  "stocked =
     \<lparr>Books = [\<lparr>book_id = 1, title = ''Harry Potter'', author = ''J.K. Rowling'',
                 year = Some 1997, available = 1\<rparr>,
               \<lparr>book_id = 2, title = ''Harry Potter'', author = ''J.K. Rowling'',
                 year = Some 1997, available = 1\<rparr>,
               \<lparr>book_id = 3, title = ''Clean Code'', author = ''Robert C. Martin'',
                 year = Some 2008, available = 1\<rparr>],
      Users = [\<lparr>user_id = 1, name = ''Alice Cohen'', phone = Some ''050-1111111'',
                 email = Some ''alice@example.com''\<rparr>,
               \<lparr>user_id = 2, name = ''Bob Levi'', phone = Some ''052-2222222'',
                 email = Some ''bob@example.com''\<rparr>],
      Borrow = [], seq_Books = 3, seq_Users = 2, seq_Borrow = 0\<rparr>"

text \<open>The same store after Alice borrowed copy 1 and brought it back.\<close>

definition history :: db where
  "history =
     stocked\<lparr>Borrow := [\<lparr>borrow_id = 1, b_book_id = 1, b_user_id = 1,
                          borrow_date = ''2025-12-19'', return_date = Some ''2025-12-20''\<rparr>],
             seq_Borrow := 1\<rparr>"

text \<open>
  The store \<open>stocked\<close> with four Borrow rows: two on copy 1 and one on copy 2 of the
  same title, one on copy 3.
\<close>

definition busy :: db where
  "busy =
     stocked\<lparr>Borrow :=
       [\<lparr>borrow_id = 1, b_book_id = 1, b_user_id = 1, borrow_date = ''2025-12-19'',
         return_date = Some ''2025-12-20''\<rparr>,
        \<lparr>borrow_id = 2, b_book_id = 3, b_user_id = 1, borrow_date = ''2025-12-21'', return_date = None\<rparr>,
        \<lparr>borrow_id = 3, b_book_id = 2, b_user_id = 2, borrow_date = ''2025-12-21'', return_date = None\<rparr>,
        \<lparr>borrow_id = 4, b_book_id = 1, b_user_id = 2, borrow_date = ''2025-12-22'', return_date = None\<rparr>],
       seq_Borrow := 4\<rparr>"

text \<open>
  A store whose one Borrow row, still open, references a copy that has no row in Books.
  The calls of the modules cannot produce it; a file written without foreign keys can
  hold it.
\<close>

definition orphaned :: db where
  "orphaned =
     \<lparr>Books = [],
      Users = [\<lparr>user_id = 1, name = ''Alice Cohen'', phone = None, email = None\<rparr>],
      Borrow = [\<lparr>borrow_id = 1, b_book_id = 7, b_user_id = 1, borrow_date = ''2025-12-19'',
                 return_date = None\<rparr>],
      seq_Books = 7, seq_Users = 1, seq_Borrow = 1\<rparr>"

text \<open>
  Two sequences of calls on a fresh store. The first follows the flow of \<^verbatim>\<open>main.py\<close>
  on one copy; the second uses the override while the copy is out.
\<close>

definition session :: "call list" where
  "session =
     [Add_book ''Harry Potter'' ''J.K. Rowling'' (Some 1997),
      Create_user ''Alice Cohen'' (Some ''050-1111111'') (Some ''alice@example.com''),
      Create_user ''Bob Levi'' (Some ''052-2222222'') (Some ''bob@example.com''),
      Borrow_book 1 1 (Some ''2025-12-19''),
      Borrow_book 2 1 (Some ''2025-12-19''),
      Return_book 1 (Some ''2025-12-20''),
      Return_book 1 (Some ''2025-12-21''),
      Borrow_book 2 1 (Some ''2025-12-22'')]"

definition override :: "call list" where
  "override =
     [Add_book ''Harry Potter'' ''J.K. Rowling'' (Some 1997),
      Create_user ''Alice Cohen'' (Some ''050-1111111'') (Some ''alice@example.com''),
      Create_user ''Bob Levi'' (Some ''052-2222222'') (Some ''bob@example.com''),
      Borrow_book 1 1 (Some ''2025-12-19''),
      Update_book_availability 1 1,
      Borrow_book 2 1 (Some ''2025-12-19'')]"

section \<open>Row keys\<close>

lemma fold_max_ge: "a \<le> fold max xs (a::int)"
proof (induction xs arbitrary: a)
  case Nil
  show ?case by simp
next
  case (Cons x xs)
  have "a \<le> max x a" by simp
  also have "\<dots> \<le> fold max xs (max x a)" by (rule Cons.IH)
  finally show ?case by simp
qed

lemma fold_max_mem: "x \<in> set xs \<Longrightarrow> x \<le> fold max xs (a::int)"
proof (induction xs arbitrary: a)
  case Nil
  then show ?case by simp
next
  case (Cons y ys)
  show ?case
  proof (cases "x = y")
    case True
    have "x \<le> max y a" using True by simp
    also have "\<dots> \<le> fold max ys (max y a)" by (rule fold_max_ge)
    finally show ?thesis by simp
  next
    case False
    with Cons.prems have "x \<in> set ys" by simp
    then show ?thesis using Cons.IH by simp
  qed
qed

text \<open>A new key is larger than every key of the table.\<close>

lemma next_rowid_fresh: "i \<in> set ids \<Longrightarrow> i < next_rowid seq ids"
  using fold_max_mem [of i ids 0] by (simp add: next_rowid_def)

lemma rowcount_book_pos: "(rowcount_book bid s > 0) = (\<exists>k \<in> set (Books s). book_id k = bid)"
  by (simp add: rowcount_book_def filter_empty_conv)

section \<open>The book registry\<close>

text \<open>
  C10. \<^verbatim>\<open>update_book_availability\<close> raises ValueError for every value of \<open>available\<close>
  other than 0 and 1 and leaves the store as it was; for 0 and 1 it does not raise, sets
  the flag of the rows of the given key, and returns whether there is such a row.
\<close>

theorem update_book_availability_cases:
  "(v \<noteq> 0 \<and> v \<noteq> 1 \<longrightarrow> update_book_availability bid v s = (Inl ValueError, s)) \<and>
   (v = 0 \<or> v = 1 \<longrightarrow>
      update_book_availability bid v s =
        (Inr (\<exists>k \<in> set (Books s). book_id k = bid),
         s\<lparr>Books := map (\<lambda>k. if book_id k = bid then k\<lparr>available := v\<rparr> else k) (Books s)\<rparr>))"
  by (auto simp: update_book_availability_def set_available_def rowcount_book_pos)

theorem update_book_availability_cases_witness:
  "update_book_availability 3 2 stocked = (Inl ValueError, stocked) \<and>
   update_book_availability 3 (- 1) stocked = (Inl ValueError, stocked) \<and>
   fst (update_book_availability 3 0 stocked) = Inr True \<and>
   map available (Books (snd (update_book_availability 3 0 stocked))) = [1, 1, 0] \<and>
   update_book_availability 5 1 stocked = (Inr False, stocked)"
  using update_book_availability_cases [of 2 3 stocked]
        update_book_availability_cases [of "- 1" 3 stocked]
        update_book_availability_cases [of 0 3 stocked]
        update_book_availability_cases [of 1 5 stocked]
  by (simp add: stocked_def)

text \<open>
  C7. \<^verbatim>\<open>delete_book\<close> returns False and leaves the store as it was when a Borrow row,
  open or closed, references the copy. With no such row it removes the rows of the key
  and returns whether there was one; when there was none the store is unchanged.
\<close>

theorem delete_book_cases:
  "((\<exists>r \<in> set (Borrow s). b_book_id r = bid) \<longrightarrow> delete_book bid s = (False, s)) \<and>
   (\<not> (\<exists>r \<in> set (Borrow s). b_book_id r = bid) \<longrightarrow>
      delete_book bid s =
        (\<exists>k \<in> set (Books s). book_id k = bid,
         s\<lparr>Books := filter (\<lambda>k. book_id k \<noteq> bid) (Books s)\<rparr>)) \<and>
   (\<not> (\<exists>k \<in> set (Books s). book_id k = bid) \<longrightarrow> snd (delete_book bid s) = s)"
proof (intro conjI impI)
  assume "\<exists>r \<in> set (Borrow s). b_book_id r = bid"
  then have "borrow_count_of_book bid s > 0"
    by (simp add: borrow_count_of_book_def filter_empty_conv)
  then show "delete_book bid s = (False, s)"
    by (simp add: delete_book_def)
next
  assume "\<not> (\<exists>r \<in> set (Borrow s). b_book_id r = bid)"
  then have "borrow_count_of_book bid s = 0"
    by (simp add: borrow_count_of_book_def filter_empty_conv)
  then show "delete_book bid s =
        (\<exists>k \<in> set (Books s). book_id k = bid,
         s\<lparr>Books := filter (\<lambda>k. book_id k \<noteq> bid) (Books s)\<rparr>)"
    by (simp add: delete_book_def rowcount_book_pos)
next
  assume "\<not> (\<exists>k \<in> set (Books s). book_id k = bid)"
  then have "filter (\<lambda>k. book_id k \<noteq> bid) (Books s) = Books s"
    by (simp add: filter_id_conv)
  then show "snd (delete_book bid s) = s"
    by (simp add: delete_book_def)
qed

theorem delete_book_cases_witness:
  "delete_book 1 history = (False, history) \<and>
   fst (delete_book 2 history) = True \<and>
   map book_id (Books (snd (delete_book 2 history))) = [1, 3] \<and>
   delete_book 9 history = (False, history)"
  using delete_book_cases [of history 1] delete_book_cases [of history 2]
        delete_book_cases [of history 9]
  by (simp add: history_def stocked_def)

section \<open>Borrowing\<close>

lemma mark_unavailable_count: "(fst (mark_unavailable bid s) = 0) = (\<not> available_row bid s)"
  by (auto simp: mark_unavailable_def available_row_def filter_empty_conv)

lemma mark_unavailable_ids:
  "map book_id (Books (snd (mark_unavailable bid s))) = map book_id (Books s)"
  by (simp add: mark_unavailable_def if_distrib [of book_id])

lemma mark_unavailable_keys:
  "(\<exists>k \<in> set (Books (snd (mark_unavailable bid s))). book_id k = b) = (\<exists>k \<in> set (Books s). book_id k = b)"
proof -
  have e: "(\<exists>k \<in> set (Books t). book_id k = b) = (b \<in> set (map book_id (Books t)))" for t
    by auto
  show ?thesis unfolding e mark_unavailable_ids ..
qed

lemma mark_unavailable_users: "user_exists uid (snd (mark_unavailable bid s)) = user_exists uid s"
  by (simp add: mark_unavailable_def user_exists_def)

lemma borrow_book_reject:
  "\<not> user_exists uid s \<or> \<not> available_row bid s \<Longrightarrow> borrow_book uid bid d s = (Inr None, s)"
  using mark_unavailable_count [of bid s]
  by (auto simp: borrow_book_def split: prod.splits)

lemma insert_after_flip:
  assumes "user_exists uid s" and "available_row bid s"
  shows "insert_borrow bid uid d (snd (mark_unavailable bid s)) =
     (case d of None \<Rightarrow> Inl IntegrityError
      | Some date \<Rightarrow> Inr (next_rowid (seq_Borrow s) (map borrow_id (Borrow s)), borrowed uid bid date s))"
proof -
  from assms(2) have "\<exists>k \<in> set (Books s). book_id k = bid"
    by (auto simp: available_row_def)
  then have k: "\<exists>k \<in> set (Books (snd (mark_unavailable bid s))). book_id k = bid"
    by (simp add: mark_unavailable_keys)
  have u: "user_exists uid (snd (mark_unavailable bid s))"
    using assms(1) by (simp add: mark_unavailable_users)
  have b: "Borrow (snd (mark_unavailable bid s)) = Borrow s"
       "seq_Borrow (snd (mark_unavailable bid s)) = seq_Borrow s"
    by (simp_all add: mark_unavailable_def)
  show ?thesis
    using k u by (simp add: insert_borrow_def b Let_def borrowed_def mark_unavailable_def split: option.splits)
qed

lemma borrow_book_raise:
  assumes "user_exists uid s" and "available_row bid s"
  shows "borrow_book uid bid None s = (Inl IntegrityError, s)"
  using assms mark_unavailable_count [of bid s] insert_after_flip [OF assms, of None]
  by (simp add: borrow_book_def case_prod_beta)

lemma borrow_book_success:
  assumes "user_exists uid s" and "available_row bid s"
  shows "borrow_book uid bid (Some date) s =
     (Inr (Some (next_rowid (seq_Borrow s) (map borrow_id (Borrow s)))), borrowed uid bid date s)"
  using assms mark_unavailable_count [of bid s] insert_after_flip [OF assms, of "Some date"]
  by (simp add: borrow_book_def case_prod_beta)

lemma none_after_map: "(\<And>x. \<not> P (f x)) \<Longrightarrow> \<not> (\<exists>k \<in> set (map f xs). P k)"
  by (induction xs) simp_all

lemma flipped_row:
  "\<not> (book_id (if book_id k = bid \<and> available k = 1 then k\<lparr>available := 0\<rparr> else k) = bid \<and>
       available (if book_id k = bid \<and> available k = 1 then k\<lparr>available := 0\<rparr> else k) = 1)"
  by (cases "book_id k = bid \<and> available k = 1") simp_all

lemma mark_unavailable_done: "\<not> available_row bid (snd (mark_unavailable bid s))"
proof -
  have b: "Books (snd (mark_unavailable bid s)) =
    map (\<lambda>k. if book_id k = bid \<and> available k = 1 then k\<lparr>available := 0\<rparr> else k) (Books s)"
    by (simp add: mark_unavailable_def)
  show ?thesis
    unfolding available_row_def b by (rule none_after_map) (rule flipped_row)
qed

text \<open>
  C9. The row that \<^verbatim>\<open>add_book\<close> inserts has the flag 1 whatever the title, the author
  and the year are; its key is larger than every key of the table, and any existing
  member can borrow the new copy at once.
\<close>

theorem add_book_available:
  "Books (snd (add_book t a y s)) =
     Books s @ [\<lparr>book_id = fst (add_book t a y s), title = t, author = a, year = y, available = 1\<rparr>] \<and>
   (\<forall>k \<in> set (Books s). book_id k < fst (add_book t a y s)) \<and>
   (user_exists uid s \<longrightarrow>
      (\<exists>rid s'. borrow_book uid (fst (add_book t a y s)) (Some date) (snd (add_book t a y s)) =
                  (Inr (Some rid), s')))"
proof (intro conjI impI)
  show "Books (snd (add_book t a y s)) =
     Books s @ [\<lparr>book_id = fst (add_book t a y s), title = t, author = a, year = y, available = 1\<rparr>]"
    by (simp add: add_book_def Let_def)
  show "\<forall>k \<in> set (Books s). book_id k < fst (add_book t a y s)"
  proof
    fix k assume "k \<in> set (Books s)"
    then have "book_id k \<in> set (map book_id (Books s))" by simp
    then have "book_id k < next_rowid (seq_Books s) (map book_id (Books s))"
      by (rule next_rowid_fresh)
    then show "book_id k < fst (add_book t a y s)"
      by (simp add: add_book_def Let_def)
  qed
next
  assume u: "user_exists uid s"
  have u': "user_exists uid (snd (add_book t a y s))"
    using u by (simp add: add_book_def Let_def user_exists_def)
  have a': "available_row (fst (add_book t a y s)) (snd (add_book t a y s))"
    by (simp add: add_book_def Let_def available_row_def)
  show "\<exists>rid s'. borrow_book uid (fst (add_book t a y s)) (Some date) (snd (add_book t a y s)) =
                  (Inr (Some rid), s')"
    using borrow_book_success [OF u' a'] by blast
qed

theorem add_book_available_witness:
  "fst (add_book ''Dune'' ''Frank Herbert'' None stocked) = 4 \<and>
   map available (Books (snd (add_book ''Dune'' ''Frank Herbert'' None stocked))) = [1, 1, 1, 1] \<and>
   (\<exists>rid s'. borrow_book 2 (fst (add_book ''Dune'' ''Frank Herbert'' None stocked)) (Some ''2025-12-21'')
                 (snd (add_book ''Dune'' ''Frank Herbert'' None stocked)) = (Inr (Some rid), s'))"
proof -
  have u: "user_exists 2 stocked"
    by (simp add: stocked_def user_exists_def)
  have new: "fst (add_book ''Dune'' ''Frank Herbert'' None stocked) = 4"
    by (simp add: add_book_def next_rowid_def stocked_def)
  have flags: "map available (Books (snd (add_book ''Dune'' ''Frank Herbert'' None stocked))) = [1, 1, 1, 1]"
    by (simp add: add_book_def next_rowid_def stocked_def)
  note fact = add_book_available [of "''Dune''" "''Frank Herbert''" None stocked 2 "''2025-12-21''"]
  have "user_exists 2 stocked \<longrightarrow>
      (\<exists>rid s'. borrow_book 2 (fst (add_book ''Dune'' ''Frank Herbert'' None stocked)) (Some ''2025-12-21'')
                 (snd (add_book ''Dune'' ''Frank Herbert'' None stocked)) = (Inr (Some rid), s'))"
    by (rule fact [THEN conjunct2, THEN conjunct2])
  then have ok: "\<exists>rid s'. borrow_book 2 (fst (add_book ''Dune'' ''Frank Herbert'' None stocked)) (Some ''2025-12-21'')
                 (snd (add_book ''Dune'' ''Frank Herbert'' None stocked)) = (Inr (Some rid), s')"
    using u by (rule mp)
  show ?thesis
    by (rule conjI [OF new conjI [OF flags ok]])
qed

text \<open>
  C4. \<^verbatim>\<open>borrow_book\<close> returns None, without raising and with the store unchanged,
  when the member does not exist, when no row has the key of the copy, and when the
  copy has the flag 0 (said of every row of the key; the key is primary, so that is the
  one row of the copy). When it returns a key, the Borrow table has gained exactly one
  row, open, with that key, and no older row has it.
\<close>

theorem borrow_book_rejects:
  "(\<not> user_exists uid s \<longrightarrow> borrow_book uid bid d s = (Inr None, s)) \<and>
   (\<not> (\<exists>k \<in> set (Books s). book_id k = bid) \<longrightarrow> borrow_book uid bid d s = (Inr None, s)) \<and>
   ((\<forall>k \<in> set (Books s). book_id k = bid \<longrightarrow> available k = 0) \<longrightarrow>
      borrow_book uid bid d s = (Inr None, s)) \<and>
   (\<forall>rid s'. borrow_book uid bid d s = (Inr (Some rid), s') \<longrightarrow>
      (\<exists>date. d = Some date \<and>
         Borrow s' = Borrow s @ [\<lparr>borrow_id = rid, b_book_id = bid, b_user_id = uid,
                                   borrow_date = date, return_date = None\<rparr>]) \<and>
      (\<forall>r \<in> set (Borrow s). borrow_id r \<noteq> rid))"
proof (intro conjI impI allI)
  assume "\<not> user_exists uid s"
  then show "borrow_book uid bid d s = (Inr None, s)"
    by (simp add: borrow_book_reject)
next
  assume "\<not> (\<exists>k \<in> set (Books s). book_id k = bid)"
  then have "\<not> available_row bid s"
    by (auto simp: available_row_def)
  then show "borrow_book uid bid d s = (Inr None, s)"
    by (simp add: borrow_book_reject)
next
  assume "\<forall>k \<in> set (Books s). book_id k = bid \<longrightarrow> available k = 0"
  then have "\<not> available_row bid s"
    by (auto simp: available_row_def)
  then show "borrow_book uid bid d s = (Inr None, s)"
    by (simp add: borrow_book_reject)
next
  fix rid s'
  assume ok: "borrow_book uid bid d s = (Inr (Some rid), s')"
  have pre: "user_exists uid s \<and> available_row bid s"
  proof (rule ccontr)
    assume "\<not> (user_exists uid s \<and> available_row bid s)"
    then have "\<not> user_exists uid s \<or> \<not> available_row bid s" by simp
    then have "borrow_book uid bid d s = (Inr None, s)" by (rule borrow_book_reject)
    with ok show False by simp
  qed
  have some: "d \<noteq> None"
    using ok pre borrow_book_raise [of uid s bid] by (cases d) auto
  then obtain date where d: "d = Some date" by auto
  have eq: "rid = next_rowid (seq_Borrow s) (map borrow_id (Borrow s))" "s' = borrowed uid bid date s"
    using ok pre borrow_book_success [of uid s bid date] by (simp_all add: d)
  show "\<exists>date. d = Some date \<and>
         Borrow s' = Borrow s @ [\<lparr>borrow_id = rid, b_book_id = bid, b_user_id = uid,
                                   borrow_date = date, return_date = None\<rparr>]"
    using d eq by (simp add: borrowed_def Let_def)
  show "\<forall>r \<in> set (Borrow s). borrow_id r \<noteq> rid"
  proof
    fix r assume "r \<in> set (Borrow s)"
    then have "borrow_id r \<in> set (map borrow_id (Borrow s))" by simp
    then have "borrow_id r < rid"
      unfolding eq(1) by (rule next_rowid_fresh)
    then show "borrow_id r \<noteq> rid" by simp
  qed
qed

theorem borrow_book_rejects_witness:
  "borrow_book 9 1 (Some ''2025-12-19'') stocked = (Inr None, stocked) \<and>
   borrow_book 1 9 (Some ''2025-12-19'') stocked = (Inr None, stocked) \<and>
   borrow_book 2 1 (Some ''2025-12-19'') (snd (borrow_book 1 1 (Some ''2025-12-19'') stocked)) =
     (Inr None, snd (borrow_book 1 1 (Some ''2025-12-19'') stocked)) \<and>
   Borrow (snd (borrow_book 1 1 (Some ''2025-12-19'') stocked)) =
     [\<lparr>borrow_id = 1, b_book_id = 1, b_user_id = 1, borrow_date = ''2025-12-19'',
       return_date = None\<rparr>]"
proof -
  have first: "borrow_book 1 1 (Some ''2025-12-19'') stocked = (Inr (Some 1), borrowed 1 1 ''2025-12-19'' stocked)"
    by (simp add: borrow_book_def user_exists_def mark_unavailable_def insert_borrow_def
        next_rowid_def borrowed_def stocked_def)
  have no_user: "\<not> user_exists 9 stocked"
    by (simp add: user_exists_def stocked_def)
  have no_book: "\<not> (\<exists>k \<in> set (Books stocked). book_id k = 9)"
    by (simp add: stocked_def)
  have taken: "\<forall>k \<in> set (Books (borrowed 1 1 ''2025-12-19'' stocked)). book_id k = 1 \<longrightarrow> available k = 0"
    by (simp add: borrowed_def next_rowid_def stocked_def)
  have a: "borrow_book 9 1 (Some ''2025-12-19'') stocked = (Inr None, stocked)"
    using borrow_book_rejects [of 9 stocked 1 "Some ''2025-12-19''"] no_user by simp
  have b: "borrow_book 1 9 (Some ''2025-12-19'') stocked = (Inr None, stocked)"
    using borrow_book_rejects [of 1 stocked 9 "Some ''2025-12-19''"] no_book by simp
  have c: "borrow_book 2 1 (Some ''2025-12-19'') (borrowed 1 1 ''2025-12-19'' stocked) =
     (Inr None, borrowed 1 1 ''2025-12-19'' stocked)"
    using borrow_book_rejects [of 2 "borrowed 1 1 ''2025-12-19'' stocked" 1 "Some ''2025-12-19''"] taken
    by simp
  have d: "Borrow (borrowed 1 1 ''2025-12-19'' stocked) =
     [\<lparr>borrow_id = 1, b_book_id = 1, b_user_id = 1, borrow_date = ''2025-12-19'',
       return_date = None\<rparr>]"
    using borrow_book_rejects [of 1 stocked 1 "Some ''2025-12-19''"] first
    by (simp add: borrowed_def next_rowid_def stocked_def)
  show ?thesis
    unfolding first snd_conv by (rule conjI [OF a conjI [OF b conjI [OF c d]]])
qed

text \<open>
  C3. With an existing member and an available copy, a NULL date makes the INSERT
  raise after the UPDATE has set the flag to 0; the handler rolls back, so the call
  raises and the store is the one it started from: the flag is 1 again and no Borrow
  row was added. That is the only way the call raises, and a raising call never
  changes the store.
\<close>

theorem borrow_book_rollback:
  "(user_exists uid s \<and> available_row bid s \<longrightarrow>
      fst (mark_unavailable bid s) > 0 \<and>
      \<not> available_row bid (snd (mark_unavailable bid s)) \<and>
      insert_borrow bid uid None (snd (mark_unavailable bid s)) = Inl IntegrityError \<and>
      borrow_book uid bid None s = (Inl IntegrityError, s)) \<and>
   (\<forall>e. fst (borrow_book uid bid d s) = Inl e \<longrightarrow>
      snd (borrow_book uid bid d s) = s \<and> user_exists uid s \<and> available_row bid s \<and> d = None)"
proof (intro conjI impI allI)
  assume pre: "user_exists uid s \<and> available_row bid s"
  show "fst (mark_unavailable bid s) > 0"
    using pre mark_unavailable_count [of bid s] by simp
  show "\<not> available_row bid (snd (mark_unavailable bid s))"
    by (rule mark_unavailable_done)
  show "insert_borrow bid uid None (snd (mark_unavailable bid s)) = Inl IntegrityError"
    by (simp add: insert_borrow_def)
  show "borrow_book uid bid None s = (Inl IntegrityError, s)"
    using pre by (simp add: borrow_book_raise)
next
  fix e
  assume raised: "fst (borrow_book uid bid d s) = Inl e"
  have pre: "user_exists uid s \<and> available_row bid s"
  proof (rule ccontr)
    assume "\<not> (user_exists uid s \<and> available_row bid s)"
    then have "\<not> user_exists uid s \<or> \<not> available_row bid s" by simp
    then have "borrow_book uid bid d s = (Inr None, s)" by (rule borrow_book_reject)
    with raised show False by simp
  qed
  have none: "d = None"
  proof (cases d)
    case None
    then show ?thesis .
  next
    case (Some date)
    then show ?thesis
      using raised pre borrow_book_success [of uid s bid date] by simp
  qed
  show "snd (borrow_book uid bid d s) = s"
    using pre none by (simp add: borrow_book_raise)
  show "user_exists uid s" using pre by simp
  show "available_row bid s" using pre by simp
  show "d = None" by (rule none)
qed

theorem borrow_book_rollback_witness:
  "fst (mark_unavailable 3 stocked) = 1 \<and>
   map available (Books (snd (mark_unavailable 3 stocked))) = [1, 1, 0] \<and>
   borrow_book 2 3 None stocked = (Inl IntegrityError, stocked) \<and>
   map available (Books (snd (borrow_book 2 3 None stocked))) = [1, 1, 1] \<and>
   Borrow (snd (borrow_book 2 3 None stocked)) = []"
proof -
  have pre: "user_exists 2 stocked \<and> available_row 3 stocked"
    by (simp add: stocked_def user_exists_def available_row_def)
  have flip: "fst (mark_unavailable 3 stocked) = 1"
       "map available (Books (snd (mark_unavailable 3 stocked))) = [1, 1, 0]"
    by (simp_all add: stocked_def mark_unavailable_def)
  have raised: "borrow_book 2 3 None stocked = (Inl IntegrityError, stocked)"
    using borrow_book_rollback [of 2 stocked 3 None] pre by simp
  show ?thesis
    unfolding raised using flip by (simp add: stocked_def)
qed

section \<open>Returning\<close>

lemma return_book_none:
  "open_rows rid s = [] \<Longrightarrow> return_book rid d s = (Inr False, s)"
  by (simp add: return_book_def)

lemma return_book_some:
  assumes "open_rows rid s = row # rest"
  shows "return_book rid d s = (Inr True, set_available (b_book_id row) 1 (snd (close_borrow rid d s)))"
proof -
  have f: "filter (\<lambda>r. borrow_id r = rid \<and> return_date r = None) (Borrow s) = row # rest"
    using assms by (simp add: open_rows_def)
  have c: "fst (close_borrow rid d s) = Suc (length rest)"
    by (simp add: close_borrow_def f)
  show ?thesis
    by (simp add: return_book_def assms case_prod_beta c)
qed

lemma open_rows_empty: "(open_rows rid s = []) = (\<not> (\<exists>r \<in> set (Borrow s). borrow_id r = rid \<and> return_date r = None))"
  by (simp add: open_rows_def filter_empty_conv)

lemma closed_row:
  "\<not> (borrow_id (if borrow_id r = rid \<and> return_date r = None then r\<lparr>return_date := Some d\<rparr> else r) = rid \<and>
       return_date (if borrow_id r = rid \<and> return_date r = None then r\<lparr>return_date := Some d\<rparr> else r) = None)"
  by (cases "borrow_id r = rid \<and> return_date r = None") simp_all

lemma close_borrow_done: "open_rows rid (snd (close_borrow rid (Some d) s)) = []"
proof -
  have b: "Borrow (snd (close_borrow rid (Some d) s)) =
    map (\<lambda>r. if borrow_id r = rid \<and> return_date r = None then r\<lparr>return_date := Some d\<rparr> else r) (Borrow s)"
    by (simp add: close_borrow_def)
  have "\<not> (\<exists>r \<in> set (Borrow (snd (close_borrow rid (Some d) s))). borrow_id r = rid \<and> return_date r = None)"
    unfolding b by (rule none_after_map) (rule closed_row)
  then show ?thesis unfolding open_rows_empty .
qed

lemma open_rows_set_available: "open_rows rid (set_available bid v s) = open_rows rid s"
  by (simp add: open_rows_def set_available_def)

text \<open>
  C5. A \<^verbatim>\<open>return_book\<close> that follows a successful one with a date on the same key
  returns False and leaves the store as the first call left it. More generally it
  returns False, with the store unchanged, whenever the key has no open row.
\<close>

theorem return_book_twice:
  "(return_book rid (Some d1) s = (Inr True, s1) \<longrightarrow> return_book rid d2 s1 = (Inr False, s1)) \<and>
   (\<not> (\<exists>r \<in> set (Borrow s). borrow_id r = rid \<and> return_date r = None) \<longrightarrow>
      return_book rid d s = (Inr False, s))"
proof (intro conjI impI)
  assume first: "return_book rid (Some d1) s = (Inr True, s1)"
  have "open_rows rid s \<noteq> []"
  proof
    assume "open_rows rid s = []"
    then have "return_book rid (Some d1) s = (Inr False, s)" by (rule return_book_none)
    with first show False by simp
  qed
  then obtain row rest where rows: "open_rows rid s = row # rest"
    by (cases "open_rows rid s") auto
  have "s1 = set_available (b_book_id row) 1 (snd (close_borrow rid (Some d1) s))"
    using first return_book_some [OF rows, of "Some d1"] by simp
  then have "open_rows rid s1 = []"
    by (simp add: open_rows_set_available close_borrow_done)
  then show "return_book rid d2 s1 = (Inr False, s1)" by (rule return_book_none)
next
  assume "\<not> (\<exists>r \<in> set (Borrow s). borrow_id r = rid \<and> return_date r = None)"
  then have "open_rows rid s = []" unfolding open_rows_empty .
  then show "return_book rid d s = (Inr False, s)" by (rule return_book_none)
qed

theorem return_book_twice_witness:
  "return_book 1 (Some ''2025-12-20'') (borrowed 1 1 ''2025-12-19'' stocked) = (Inr True, history) \<and>
   return_book 1 (Some ''2025-12-21'') history = (Inr False, history) \<and>
   return_book 5 (Some ''2025-12-21'') history = (Inr False, history)"
proof -
  have first: "return_book 1 (Some ''2025-12-20'') (borrowed 1 1 ''2025-12-19'' stocked) = (Inr True, history)"
    by (simp add: return_book_def open_rows_def close_borrow_def set_available_def borrowed_def
        next_rowid_def history_def stocked_def)
  have second: "return_book 1 (Some ''2025-12-21'') history = (Inr False, history)"
    using return_book_twice [where rid = 1 and ?d1.0 = "''2025-12-20''"
        and s = "borrowed 1 1 ''2025-12-19'' stocked" and ?s1.0 = history
        and ?d2.0 = "Some ''2025-12-21''"] first
    by simp
  have unknown: "\<not> (\<exists>r \<in> set (Borrow history). borrow_id r = 5 \<and> return_date r = None)"
    by (simp add: history_def stocked_def)
  have third: "return_book 5 (Some ''2025-12-21'') history = (Inr False, history)"
    using return_book_twice [where rid = 5 and s = history and d = "Some ''2025-12-21''"] unknown
    by simp
  show ?thesis
    by (rule conjI [OF first conjI [OF second third]])
qed

lemma all_after_map: "(\<And>x. P (f x)) \<Longrightarrow> \<forall>k \<in> set (map f xs). P k"
  by (induction xs) simp_all

lemma set_row: "book_id (if book_id k = bid then k\<lparr>available := v\<rparr> else k) = bid \<longrightarrow>
    available (if book_id k = bid then k\<lparr>available := v\<rparr> else k) = v"
  by (cases "book_id k = bid") simp_all

lemma set_available_flag: "\<forall>k \<in> set (Books (set_available bid v s)). book_id k = bid \<longrightarrow> available k = v"
proof -
  have b: "Books (set_available bid v s) =
      map (\<lambda>k. if book_id k = bid then k\<lparr>available := v\<rparr> else k) (Books s)"
    by (simp add: set_available_def)
  show ?thesis
    unfolding b by (rule all_after_map) (rule set_row)
qed

lemma set_available_absent:
  assumes "rowcount_book bid s = 0"
  shows "set_available bid v s = s"
proof -
  have "\<forall>k \<in> set (Books s). book_id k \<noteq> bid"
    using assms by (simp add: rowcount_book_def filter_empty_conv)
  then have "map (\<lambda>k. if book_id k = bid then k\<lparr>available := v\<rparr> else k) (Books s) = Books s"
    by (intro map_idI) simp
  then show ?thesis by (simp add: set_available_def)
qed

lemma close_borrow_books: "Books (snd (close_borrow rid d s)) = Books s"
  by (simp add: close_borrow_def)

lemma close_borrow_rows:
  "Borrow (set_available b v (snd (close_borrow rid d s))) =
     map (\<lambda>r. if borrow_id r = rid \<and> return_date r = None then r\<lparr>return_date := d\<rparr> else r) (Borrow s)"
  by (simp add: set_available_def close_borrow_def)

lemma closed_keeps:
  assumes "\<not> (borrow_id r = rid \<and> return_date r = None)"
  shows "(if borrow_id r = rid \<and> return_date r = None then r\<lparr>return_date := d\<rparr> else r) = r"
  using assms by (rule if_not_P)

text \<open>
  C2, as the code has it. \<^verbatim>\<open>return_book\<close> does not read the row count of its UPDATE
  of Books. Given a date, when the key has an open row the call returns True:
  afterwards no row of that key is open, the row that was found carries the date, the
  other Borrow rows are as they were and none was added or removed, and every Books row
  of the referenced copy has the flag 1. When the copy has no row in Books the call
  returns True all the same, with Books unchanged.
\<close>

theorem return_book_flip:
  "open_rows rid s = row # rest \<longrightarrow>
     fst (return_book rid (Some date) s) = Inr True \<and>
     (\<forall>r \<in> set (Borrow (snd (return_book rid (Some date) s))). borrow_id r = rid \<longrightarrow> return_date r \<noteq> None) \<and>
     row\<lparr>return_date := Some date\<rparr> \<in> set (Borrow (snd (return_book rid (Some date) s))) \<and>
     (\<forall>r \<in> set (Borrow s). \<not> (borrow_id r = rid \<and> return_date r = None) \<longrightarrow>
        r \<in> set (Borrow (snd (return_book rid (Some date) s)))) \<and>
     length (Borrow (snd (return_book rid (Some date) s))) = length (Borrow s) \<and>
     (\<forall>k \<in> set (Books (snd (return_book rid (Some date) s))). book_id k = b_book_id row \<longrightarrow> available k = 1) \<and>
     (rowcount_book (b_book_id row) s = 0 \<longrightarrow> Books (snd (return_book rid (Some date) s)) = Books s)"
proof (intro impI)
  assume rows: "open_rows rid s = row # rest"
  define s' where "s' = set_available (b_book_id row) 1 (snd (close_borrow rid (Some date) s))"
  define c :: "borrow \<Rightarrow> borrow" where
    "c = (\<lambda>r. if borrow_id r = rid \<and> return_date r = None then r\<lparr>return_date := Some date\<rparr> else r)"
  have r: "return_book rid (Some date) s = (Inr True, s')"
    unfolding s'_def using rows by (rule return_book_some)
  have bw: "Borrow s' = map c (Borrow s)"
    unfolding s'_def c_def by (rule close_borrow_rows)
  have "row \<in> set (open_rows rid s)" using rows by simp
  then have row: "row \<in> set (Borrow s)" "borrow_id row = rid \<and> return_date row = None"
    by (simp_all add: open_rows_def)
  have t: "fst (return_book rid (Some date) s) = Inr True"
    unfolding r by simp
  have "open_rows rid s' = []"
    unfolding s'_def by (simp add: open_rows_set_available close_borrow_done)
  then have "\<not> (\<exists>r \<in> set (Borrow s'). borrow_id r = rid \<and> return_date r = None)"
    unfolding open_rows_empty .
  then have closed: "\<forall>r \<in> set (Borrow s'). borrow_id r = rid \<longrightarrow> return_date r \<noteq> None"
    by auto
  have "c row = row\<lparr>return_date := Some date\<rparr>"
    unfolding c_def using row(2) by (rule if_P)
  moreover have "c row \<in> set (map c (Borrow s))" using row(1) by simp
  ultimately have dated: "row\<lparr>return_date := Some date\<rparr> \<in> set (Borrow s')"
    unfolding bw by simp
  have others: "\<forall>r \<in> set (Borrow s). \<not> (borrow_id r = rid \<and> return_date r = None) \<longrightarrow> r \<in> set (Borrow s')"
  proof (intro ballI impI)
    fix r assume m: "r \<in> set (Borrow s)" and n: "\<not> (borrow_id r = rid \<and> return_date r = None)"
    have "c r = r" unfolding c_def using n by (rule closed_keeps)
    moreover have "c r \<in> set (map c (Borrow s))" using m by simp
    ultimately show "r \<in> set (Borrow s')" unfolding bw by simp
  qed
  have len: "length (Borrow s') = length (Borrow s)"
    unfolding bw by simp
  have flag: "\<forall>k \<in> set (Books s'). book_id k = b_book_id row \<longrightarrow> available k = 1"
    unfolding s'_def by (rule set_available_flag)
  have absent: "rowcount_book (b_book_id row) s = 0 \<longrightarrow> Books s' = Books s"
  proof
    assume "rowcount_book (b_book_id row) s = 0"
    then have "rowcount_book (b_book_id row) (snd (close_borrow rid (Some date) s)) = 0"
      by (simp add: rowcount_book_def close_borrow_books)
    then have "s' = snd (close_borrow rid (Some date) s)"
      unfolding s'_def by (rule set_available_absent)
    then show "Books s' = Books s" by (simp add: close_borrow_books)
  qed
  show "fst (return_book rid (Some date) s) = Inr True \<and>
     (\<forall>r \<in> set (Borrow (snd (return_book rid (Some date) s))). borrow_id r = rid \<longrightarrow> return_date r \<noteq> None) \<and>
     row\<lparr>return_date := Some date\<rparr> \<in> set (Borrow (snd (return_book rid (Some date) s))) \<and>
     (\<forall>r \<in> set (Borrow s). \<not> (borrow_id r = rid \<and> return_date r = None) \<longrightarrow>
        r \<in> set (Borrow (snd (return_book rid (Some date) s)))) \<and>
     length (Borrow (snd (return_book rid (Some date) s))) = length (Borrow s) \<and>
     (\<forall>k \<in> set (Books (snd (return_book rid (Some date) s))). book_id k = b_book_id row \<longrightarrow> available k = 1) \<and>
     (rowcount_book (b_book_id row) s = 0 \<longrightarrow> Books (snd (return_book rid (Some date) s)) = Books s)"
    unfolding r snd_conv fst_conv
    by (rule conjI [OF refl conjI [OF closed conjI [OF dated conjI [OF others conjI [OF len conjI [OF flag absent]]]]]])
qed

theorem return_book_flip_witness:
  "fst (return_book 1 (Some ''2025-12-20'') (borrowed 1 1 ''2025-12-19'' stocked)) = Inr True \<and>
   snd (return_book 1 (Some ''2025-12-20'') (borrowed 1 1 ''2025-12-19'' stocked)) = history \<and>
   fst (return_book 1 (Some ''2025-12-20'') orphaned) = Inr True \<and>
   Books (snd (return_book 1 (Some ''2025-12-20'') orphaned)) = [] \<and>
   map return_date (Borrow (snd (return_book 1 (Some ''2025-12-20'') orphaned))) = [Some ''2025-12-20'']"
proof -
  have rows: "open_rows 1 (borrowed 1 1 ''2025-12-19'' stocked) =
      [\<lparr>borrow_id = 1, b_book_id = 1, b_user_id = 1, borrow_date = ''2025-12-19'',
        return_date = None\<rparr>]"
    by (simp add: open_rows_def borrowed_def next_rowid_def stocked_def)
  have a: "fst (return_book 1 (Some ''2025-12-20'') (borrowed 1 1 ''2025-12-19'' stocked)) = Inr True"
    by (rule return_book_flip [where date = "''2025-12-20''", THEN mp, OF rows, THEN conjunct1])
  have b: "snd (return_book 1 (Some ''2025-12-20'') (borrowed 1 1 ''2025-12-19'' stocked)) = history"
    by (simp add: return_book_def open_rows_def close_borrow_def set_available_def borrowed_def
        next_rowid_def history_def stocked_def)
  have orphan_rows: "open_rows 1 orphaned =
      [\<lparr>borrow_id = 1, b_book_id = 7, b_user_id = 1, borrow_date = ''2025-12-19'',
        return_date = None\<rparr>]"
    by (simp add: open_rows_def orphaned_def)
  have absent: "rowcount_book (b_book_id \<lparr>borrow_id = 1, b_book_id = 7, b_user_id = 1,
      borrow_date = ''2025-12-19'', return_date = None\<rparr>) orphaned = 0"
    by (simp add: rowcount_book_def orphaned_def)
  note fact = return_book_flip [where date = "''2025-12-20''", THEN mp, OF orphan_rows]
  have c: "fst (return_book 1 (Some ''2025-12-20'') orphaned) = Inr True"
    by (rule fact [THEN conjunct1])
  have "Books (snd (return_book 1 (Some ''2025-12-20'') orphaned)) = Books orphaned"
    by (rule fact [THEN conjunct2, THEN conjunct2, THEN conjunct2, THEN conjunct2, THEN conjunct2,
          THEN conjunct2, THEN mp, OF absent])
  then have d: "Books (snd (return_book 1 (Some ''2025-12-20'') orphaned)) = []"
    by (simp add: orphaned_def)
  have e: "map return_date (Borrow (snd (return_book 1 (Some ''2025-12-20'') orphaned))) =
      [Some ''2025-12-20'']"
    by (simp add: return_book_def open_rows_def close_borrow_def set_available_def orphaned_def)
  show ?thesis
    by (rule conjI [OF a conjI [OF b conjI [OF c conjI [OF d e]]]])
qed

text \<open>
  C2 as stated fails on \<open>orphaned\<close>: the close succeeds, the UPDATE of Books matches
  no row, and the call commits and returns True where the specification wants an error.
\<close>

theorem return_book_silent_counterexample:
  "rowcount_book 7 (snd (close_borrow 1 (Some ''2025-12-20'') orphaned)) = 0 \<and>
   return_book 1 (Some ''2025-12-20'') orphaned =
     (Inr True,
      orphaned\<lparr>Borrow := [\<lparr>borrow_id = 1, b_book_id = 7, b_user_id = 1,
                             borrow_date = ''2025-12-19'', return_date = Some ''2025-12-20''\<rparr>]\<rparr>)"
  by (simp add: return_book_def open_rows_def close_borrow_def set_available_def rowcount_book_def
      orphaned_def)

section \<open>The round trip of the flag\<close>

lemma flags_after_map:
  assumes ids: "\<And>k. book_id (g k) = book_id k"
    and flag: "\<And>k. k \<in> set xs \<Longrightarrow> book_id k = bid \<Longrightarrow> available (g k) = v"
    and some: "\<exists>k \<in> set xs. book_id k = bid"
  shows "set (map available (filter (\<lambda>k. book_id k = bid) (map g xs))) = {v}"
proof -
  have "filter (\<lambda>k. book_id k = bid) (map g xs) = map g (filter (\<lambda>k. book_id k = bid) xs)"
    by (simp add: filter_map o_def ids)
  then have "set (map available (filter (\<lambda>k. book_id k = bid) (map g xs))) =
      (\<lambda>k. available (g k)) ` {k \<in> set xs. book_id k = bid}"
    by (simp add: image_image)
  also have "\<dots> = {v}"
    using flag some by (auto simp: image_iff)
  finally show ?thesis .
qed

lemma flags_row: "set (copy_flags bid s) = {1} \<Longrightarrow> available_row bid s"
proof -
  assume f: "set (copy_flags bid s) = {1}"
  then have "1 \<in> set (copy_flags bid s)" by simp
  then show "available_row bid s"
    by (auto simp: copy_flags_def available_row_def)
qed

lemma flags_all: "set (copy_flags bid s) = {v} \<Longrightarrow> k \<in> set (Books s) \<Longrightarrow> book_id k = bid \<Longrightarrow> available k = v"
proof -
  assume f: "set (copy_flags bid s) = {v}" and k: "k \<in> set (Books s)" "book_id k = bid"
  have "available k \<in> set (copy_flags bid s)"
    using k by (simp add: copy_flags_def)
  then show "available k = v" using f by simp
qed

lemma flags_some: "set (copy_flags bid s) = {v} \<Longrightarrow> \<exists>k \<in> set (Books s). book_id k = bid"
proof -
  assume f: "set (copy_flags bid s) = {v}"
  then have "v \<in> set (copy_flags bid s)" by simp
  then show ?thesis by (auto simp: copy_flags_def)
qed

lemma mark_row_id: "book_id (if book_id k = bid \<and> available k = 1 then k\<lparr>available := 0\<rparr> else k) = book_id k"
  by (cases "book_id k = bid \<and> available k = 1") simp_all

lemma set_row_id: "book_id (if book_id k = bid then k\<lparr>available := v\<rparr> else k) = book_id k"
  by (cases "book_id k = bid") simp_all

lemma borrowed_flags:
  assumes f: "set (copy_flags bid s) = {1}"
  shows "set (copy_flags bid (borrowed uid bid d s)) = {0}"
proof -
  have b: "Books (borrowed uid bid d s) =
      map (\<lambda>k. if book_id k = bid \<and> available k = 1 then k\<lparr>available := 0\<rparr> else k) (Books s)"
    by (simp add: borrowed_def Let_def)
  show ?thesis
    unfolding copy_flags_def b
  proof (rule flags_after_map)
    fix k
    show "book_id (if book_id k = bid \<and> available k = 1 then k\<lparr>available := 0\<rparr> else k) = book_id k"
      by (rule mark_row_id)
  next
    fix k assume k: "k \<in> set (Books s)" "book_id k = bid"
    then have "available k = 1" using f by (rule flags_all [rotated])
    with k show "available (if book_id k = bid \<and> available k = 1 then k\<lparr>available := 0\<rparr> else k) = 0"
      by simp
  next
    show "\<exists>k \<in> set (Books s). book_id k = bid" using f by (rule flags_some)
  qed
qed

lemma set_available_flags:
  assumes "\<exists>k \<in> set (Books s). book_id k = bid"
  shows "set (copy_flags bid (set_available bid v s)) = {v}"
proof -
  have b: "Books (set_available bid v s) =
      map (\<lambda>k. if book_id k = bid then k\<lparr>available := v\<rparr> else k) (Books s)"
    by (simp add: set_available_def)
  show ?thesis
    unfolding copy_flags_def b
  proof (rule flags_after_map)
    fix k
    show "book_id (if book_id k = bid then k\<lparr>available := v\<rparr> else k) = book_id k"
      by (rule set_row_id)
  next
    fix k assume "k \<in> set (Books s)" "book_id k = bid"
    then show "available (if book_id k = bid then k\<lparr>available := v\<rparr> else k) = v"
      by simp
  next
    show "\<exists>k \<in> set (Books s). book_id k = bid" by (rule assms)
  qed
qed

lemma borrowed_open_rows:
  "open_rows (next_rowid (seq_Borrow s) (map borrow_id (Borrow s))) (borrowed uid bid d s) =
     [\<lparr>borrow_id = next_rowid (seq_Borrow s) (map borrow_id (Borrow s)), b_book_id = bid,
       b_user_id = uid, borrow_date = d, return_date = None\<rparr>]"
proof -
  have "\<forall>r \<in> set (Borrow s). borrow_id r \<noteq> next_rowid (seq_Borrow s) (map borrow_id (Borrow s))"
  proof
    fix r assume "r \<in> set (Borrow s)"
    then have "borrow_id r \<in> set (map borrow_id (Borrow s))" by simp
    then have "borrow_id r < next_rowid (seq_Borrow s) (map borrow_id (Borrow s))"
      by (rule next_rowid_fresh)
    then show "borrow_id r \<noteq> next_rowid (seq_Borrow s) (map borrow_id (Borrow s))" by simp
  qed
  then have "filter (\<lambda>r. borrow_id r = next_rowid (seq_Borrow s) (map borrow_id (Borrow s)) \<and>
      return_date r = None) (Borrow s) = []"
    by (simp add: filter_empty_conv)
  then show ?thesis
    by (simp add: open_rows_def borrowed_def Let_def)
qed

lemma borrowed_users: "user_exists uid' (borrowed uid bid d s) = user_exists uid' s"
  by (simp add: borrowed_def Let_def user_exists_def)

lemma returned_users: "user_exists uid (set_available bid v (snd (close_borrow rid d s))) = user_exists uid s"
  by (simp add: set_available_def close_borrow_def user_exists_def)

text \<open>
  C6. With an existing member and a copy whose flag is 1, \<^verbatim>\<open>borrow_book\<close>, then
  \<^verbatim>\<open>return_book\<close> on the key it returned, then \<^verbatim>\<open>borrow_book\<close> again all succeed, and
  the flag of the copy goes from 1 to 0, back to 1 and to 0 again. The borrow dates are
  dates; the return date may be anything.
\<close>

theorem borrow_return_borrow:
  assumes u: "user_exists uid s" and f: "set (copy_flags bid s) = {1}"
  shows "\<exists>rid1 s1 s2 rid2 s3.
     borrow_book uid bid (Some d1) s = (Inr (Some rid1), s1) \<and> set (copy_flags bid s1) = {0} \<and>
     return_book rid1 rd s1 = (Inr True, s2) \<and> set (copy_flags bid s2) = {1} \<and>
     borrow_book uid bid (Some d3) s2 = (Inr (Some rid2), s3) \<and> set (copy_flags bid s3) = {0}"
proof -
  define rid1 where "rid1 = next_rowid (seq_Borrow s) (map borrow_id (Borrow s))"
  define s1 where "s1 = borrowed uid bid d1 s"
  define s2 where "s2 = set_available bid 1 (snd (close_borrow rid1 rd s1))"
  define rid2 where "rid2 = next_rowid (seq_Borrow s2) (map borrow_id (Borrow s2))"
  define s3 where "s3 = borrowed uid bid d3 s2"
  have a1: "available_row bid s" using f by (rule flags_row)
  have b1: "borrow_book uid bid (Some d1) s = (Inr (Some rid1), s1)"
    unfolding rid1_def s1_def using u a1 by (rule borrow_book_success)
  have f1: "set (copy_flags bid s1) = {0}"
    unfolding s1_def using f by (rule borrowed_flags)
  have rows: "open_rows rid1 s1 =
     [\<lparr>borrow_id = rid1, b_book_id = bid, b_user_id = uid, borrow_date = d1, return_date = None\<rparr>]"
    unfolding rid1_def s1_def by (rule borrowed_open_rows)
  have r: "return_book rid1 rd s1 = (Inr True, s2)"
    using return_book_some [OF rows, of rd] by (simp add: s2_def)
  have "\<exists>k \<in> set (Books s1). book_id k = bid" using f1 by (rule flags_some)
  then have "\<exists>k \<in> set (Books (snd (close_borrow rid1 rd s1))). book_id k = bid"
    by (simp add: close_borrow_books)
  then have f2: "set (copy_flags bid s2) = {1}"
    unfolding s2_def by (rule set_available_flags)
  have u2: "user_exists uid s2"
    unfolding s2_def s1_def using u by (simp add: returned_users borrowed_users)
  have a2: "available_row bid s2" using f2 by (rule flags_row)
  have b2: "borrow_book uid bid (Some d3) s2 = (Inr (Some rid2), s3)"
    unfolding rid2_def s3_def using u2 a2 by (rule borrow_book_success)
  have f3: "set (copy_flags bid s3) = {0}"
    unfolding s3_def using f2 by (rule borrowed_flags)
  show ?thesis
    using b1 f1 r f2 b2 f3 by blast
qed

theorem borrow_return_borrow_witness:
  "\<exists>rid1 s1 s2 rid2 s3.
     borrow_book 1 1 (Some ''2025-12-19'') stocked = (Inr (Some rid1), s1) \<and> set (copy_flags 1 s1) = {0} \<and>
     return_book rid1 (Some ''2025-12-20'') s1 = (Inr True, s2) \<and> set (copy_flags 1 s2) = {1} \<and>
     borrow_book 1 1 (Some ''2025-12-21'') s2 = (Inr (Some rid2), s3) \<and> set (copy_flags 1 s3) = {0}"
proof -
  have u: "user_exists 1 stocked"
    by (simp add: user_exists_def stocked_def)
  have f: "set (copy_flags 1 stocked) = {1}"
    by (simp add: copy_flags_def stocked_def)
  show ?thesis
    using u f by (rule borrow_return_borrow)
qed

section \<open>One open borrow per copy\<close>

lemma ledger_inv_init: "ledger_inv init_db"
  by (simp add: ledger_inv_def init_db_def open_count_def)

lemma ledger_inv_same:
  assumes "Books s' = Books s" and "Borrow s' = Borrow s" and "ledger_inv s"
  shows "ledger_inv s'"
  using assms by (simp add: ledger_inv_def open_count_def available_row_def)

lemma create_user_frame: "Books (snd (create_user n p e s)) = Books s \<and> Borrow (snd (create_user n p e s)) = Borrow s"
  by (simp add: create_user_def Let_def)

lemma update_user_frame: "Books (snd (update_user uid n p e s)) = Books s \<and> Borrow (snd (update_user uid n p e s)) = Borrow s"
  by (simp add: update_user_def Let_def)

lemma delete_user_frame: "Books (snd (delete_user uid s)) = Books s \<and> Borrow (snd (delete_user uid s)) = Borrow s"
  by (simp add: delete_user_def Let_def)

lemma add_book_inv:
  assumes inv: "ledger_inv s"
  shows "ledger_inv (snd (add_book t a y s))"
proof -
  define new_id where "new_id = next_rowid (seq_Books s) (map book_id (Books s))"
  define row where "row = \<lparr>book_id = new_id, title = t, author = a, year = y, available = 1\<rparr>"
  have bk: "Books (snd (add_book t a y s)) = Books s @ [row]"
    and bw: "Borrow (snd (add_book t a y s)) = Borrow s"
    by (simp_all add: add_book_def Let_def new_id_def row_def)
  have fresh: "\<forall>k \<in> set (Books s). book_id k \<noteq> new_id"
  proof
    fix k assume "k \<in> set (Books s)"
    then have "book_id k \<in> set (map book_id (Books s))" by simp
    then have "book_id k < new_id" unfolding new_id_def by (rule next_rowid_fresh)
    then show "book_id k \<noteq> new_id" by simp
  qed
  have refs: "\<forall>r \<in> set (Borrow s). \<exists>k \<in> set (Books s). book_id k = b_book_id r"
    using inv by (simp add: ledger_inv_def)
  have old: "\<forall>r \<in> set (Borrow s). return_date r = None \<longrightarrow> \<not> available_row (b_book_id r) s"
    using inv by (simp add: ledger_inv_def)
  have one: "\<forall>b. open_count b (snd (add_book t a y s)) \<le> 1"
    using inv by (simp add: ledger_inv_def open_count_def bw)
  have two: "\<forall>r \<in> set (Borrow (snd (add_book t a y s))). return_date r = None \<longrightarrow>
      \<not> available_row (b_book_id r) (snd (add_book t a y s))"
    unfolding bw
  proof (intro ballI impI)
    fix r assume r: "r \<in> set (Borrow s)" and o: "return_date r = None"
    from refs r obtain k where "k \<in> set (Books s)" "book_id k = b_book_id r" by blast
    with fresh have ne: "b_book_id r \<noteq> new_id" by auto
    from old r o have "\<not> available_row (b_book_id r) s" by blast
    with ne show "\<not> available_row (b_book_id r) (snd (add_book t a y s))"
      by (simp add: available_row_def bk row_def)
  qed
  have three: "\<forall>r \<in> set (Borrow (snd (add_book t a y s))).
      \<exists>k \<in> set (Books (snd (add_book t a y s))). book_id k = b_book_id r"
    using refs by (auto simp: bk bw)
  show ?thesis
    unfolding ledger_inv_def using one two three by blast
qed

lemma delete_book_inv:
  assumes inv: "ledger_inv s"
  shows "ledger_inv (snd (delete_book bid s))"
proof (cases "borrow_count_of_book bid s > 0")
  case True
  then have "snd (delete_book bid s) = s" by (simp add: delete_book_def)
  with inv show ?thesis by simp
next
  case False
  then have none: "\<forall>r \<in> set (Borrow s). b_book_id r \<noteq> bid"
    by (simp add: borrow_count_of_book_def filter_empty_conv)
  have bk: "Books (snd (delete_book bid s)) = filter (\<lambda>k. book_id k \<noteq> bid) (Books s)"
    and bw: "Borrow (snd (delete_book bid s)) = Borrow s"
    using False by (simp_all add: delete_book_def)
  have refs: "\<forall>r \<in> set (Borrow s). \<exists>k \<in> set (Books s). book_id k = b_book_id r"
    using inv by (simp add: ledger_inv_def)
  have old: "\<forall>r \<in> set (Borrow s). return_date r = None \<longrightarrow> \<not> available_row (b_book_id r) s"
    using inv by (simp add: ledger_inv_def)
  have one: "\<forall>b. open_count b (snd (delete_book bid s)) \<le> 1"
    using inv by (simp add: ledger_inv_def open_count_def bw)
  have two: "\<forall>r \<in> set (Borrow (snd (delete_book bid s))). return_date r = None \<longrightarrow>
      \<not> available_row (b_book_id r) (snd (delete_book bid s))"
    using old by (auto simp: available_row_def bk bw)
  have three: "\<forall>r \<in> set (Borrow (snd (delete_book bid s))).
      \<exists>k \<in> set (Books (snd (delete_book bid s))). book_id k = b_book_id r"
    unfolding bw
  proof
    fix r assume r: "r \<in> set (Borrow s)"
    from refs r obtain k where k: "k \<in> set (Books s)" "book_id k = b_book_id r" by blast
    from none r have "b_book_id r \<noteq> bid" by blast
    with k show "\<exists>k \<in> set (Books (snd (delete_book bid s))). book_id k = b_book_id r"
      by (auto simp: bk)
  qed
  show ?thesis
    unfolding ledger_inv_def using one two three by blast
qed

lemma filter_length_mono: "(\<And>x. P x \<Longrightarrow> Q x) \<Longrightarrow> length (filter P xs) \<le> length (filter Q xs)"
  by (induction xs) auto

lemma two_in_filter:
  assumes "x \<in> set xs" "y \<in> set xs" "x \<noteq> y" "P x" "P y"
  shows "2 \<le> length (filter P xs)"
proof -
  have "{x, y} \<subseteq> set (filter P xs)" using assms by simp
  then have "card {x, y} \<le> card (set (filter P xs))" by (intro card_mono) simp_all
  also have "\<dots> \<le> length (filter P xs)" by (rule card_length)
  finally show ?thesis using assms(3) by simp
qed

lemma available_after_flip:
  "available_row b (snd (mark_unavailable bid s)) \<Longrightarrow> available_row b s"
proof -
  assume a: "available_row b (snd (mark_unavailable bid s))"
  have bk: "Books (snd (mark_unavailable bid s)) =
    map (\<lambda>k. if book_id k = bid \<and> available k = 1 then k\<lparr>available := 0\<rparr> else k) (Books s)"
    by (simp add: mark_unavailable_def)
  from a obtain k where k: "k \<in> set (Books s)"
      and p: "book_id (if book_id k = bid \<and> available k = 1 then k\<lparr>available := 0\<rparr> else k) = b"
             "available (if book_id k = bid \<and> available k = 1 then k\<lparr>available := 0\<rparr> else k) = 1"
    unfolding available_row_def bk by auto
  have "book_id k = b \<and> available k = 1"
  proof (cases "book_id k = bid \<and> available k = 1")
    case True
    then have e: "(if book_id k = bid \<and> available k = 1 then k\<lparr>available := 0\<rparr> else k) =
        k\<lparr>available := 0\<rparr>"
      by (rule if_P)
    from p(2) have "available (k\<lparr>available := 0\<rparr>) = 1" unfolding e .
    then show ?thesis by simp
  next
    case False
    then have e: "(if book_id k = bid \<and> available k = 1 then k\<lparr>available := 0\<rparr> else k) = k"
      by (rule if_not_P)
    from p show ?thesis unfolding e by (rule conjI)
  qed
  with k show "available_row b s" unfolding available_row_def by blast
qed

lemma borrowed_books: "Books (borrowed uid bid d s) = Books (snd (mark_unavailable bid s))"
  by (simp add: borrowed_def mark_unavailable_def Let_def)

lemma borrowed_borrow:
  "Borrow (borrowed uid bid d s) = Borrow s @ [\<lparr>borrow_id = next_rowid (seq_Borrow s) (map borrow_id (Borrow s)),
       b_book_id = bid, b_user_id = uid, borrow_date = d, return_date = None\<rparr>]"
  by (simp add: borrowed_def Let_def)

lemma available_row_books: "Books s' = Books s \<Longrightarrow> available_row b s' = available_row b s"
  by (simp add: available_row_def)

lemma borrowed_inv:
  assumes inv: "ledger_inv s" and a: "available_row bid s"
  shows "ledger_inv (borrowed uid bid d s)"
proof -
  have refs: "\<forall>r \<in> set (Borrow s). \<exists>k \<in> set (Books s). book_id k = b_book_id r"
    using inv by (simp add: ledger_inv_def)
  have old: "\<forall>r \<in> set (Borrow s). return_date r = None \<longrightarrow> \<not> available_row (b_book_id r) s"
    using inv by (simp add: ledger_inv_def)
  have cnt: "\<forall>b. open_count b s \<le> 1"
    using inv by (simp add: ledger_inv_def)
  have av: "available_row b (borrowed uid bid d s) = available_row b (snd (mark_unavailable bid s))" for b
    by (rule available_row_books) (rule borrowed_books)
  have none_open: "open_count bid s = 0"
  proof -
    have "\<forall>r \<in> set (Borrow s). \<not> (b_book_id r = bid \<and> return_date r = None)"
      using old a by auto
    then show ?thesis by (simp add: open_count_def filter_empty_conv)
  qed
  have one: "\<forall>b. open_count b (borrowed uid bid d s) \<le> 1"
  proof
    fix b
    show "open_count b (borrowed uid bid d s) \<le> 1"
    proof (cases "b = bid")
      case True
      have "open_count bid (borrowed uid bid d s) = open_count bid s + 1"
        by (simp add: open_count_def borrowed_borrow)
      with none_open True show ?thesis by simp
    next
      case False
      then have "open_count b (borrowed uid bid d s) = open_count b s"
        by (simp add: open_count_def borrowed_borrow)
      with cnt show ?thesis by simp
    qed
  qed
  have two: "\<forall>r \<in> set (Borrow (borrowed uid bid d s)). return_date r = None \<longrightarrow>
      \<not> available_row (b_book_id r) (borrowed uid bid d s)"
  proof (intro ballI impI)
    fix r assume r: "r \<in> set (Borrow (borrowed uid bid d s))" and o: "return_date r = None"
    from r have "r \<in> set (Borrow s) \<or> b_book_id r = bid"
      by (auto simp: borrowed_borrow)
    then show "\<not> available_row (b_book_id r) (borrowed uid bid d s)"
    proof
      assume "r \<in> set (Borrow s)"
      with old o have "\<not> available_row (b_book_id r) s" by blast
      then have "\<not> available_row (b_book_id r) (snd (mark_unavailable bid s))"
        using available_after_flip by blast
      then show ?thesis unfolding av .
    next
      assume "b_book_id r = bid"
      then show ?thesis
        unfolding av using mark_unavailable_done [of bid s] by simp
    qed
  qed
  have keys: "(\<exists>k \<in> set (Books (borrowed uid bid d s)). book_id k = b) = (\<exists>k \<in> set (Books s). book_id k = b)" for b
    unfolding borrowed_books by (rule mark_unavailable_keys)
  have three: "\<forall>r \<in> set (Borrow (borrowed uid bid d s)).
      \<exists>k \<in> set (Books (borrowed uid bid d s)). book_id k = b_book_id r"
  proof
    fix r assume r: "r \<in> set (Borrow (borrowed uid bid d s))"
    then have "r \<in> set (Borrow s) \<or> b_book_id r = bid"
      by (auto simp: borrowed_borrow)
    then have "\<exists>k \<in> set (Books s). book_id k = b_book_id r"
    proof
      assume "r \<in> set (Borrow s)"
      with refs show ?thesis by blast
    next
      assume "b_book_id r = bid"
      with a show ?thesis by (auto simp: available_row_def)
    qed
    then show "\<exists>k \<in> set (Books (borrowed uid bid d s)). book_id k = b_book_id r"
      unfolding keys .
  qed
  show ?thesis
    unfolding ledger_inv_def using one two three by blast
qed

lemma borrow_book_inv:
  assumes inv: "ledger_inv s"
  shows "ledger_inv (snd (borrow_book uid bid d s))"
proof (cases "user_exists uid s \<and> available_row bid s")
  case False
  then have "\<not> user_exists uid s \<or> \<not> available_row bid s" by simp
  then have "borrow_book uid bid d s = (Inr None, s)" by (rule borrow_book_reject)
  with inv show ?thesis by simp
next
  case True
  show ?thesis
  proof (cases d)
    case None
    with True have "borrow_book uid bid d s = (Inl IntegrityError, s)"
      by (simp add: borrow_book_raise)
    with inv show ?thesis by simp
  next
    case (Some date)
    with True have "snd (borrow_book uid bid d s) = borrowed uid bid date s"
      by (simp add: borrow_book_success)
    moreover have "ledger_inv (borrowed uid bid date s)"
      using inv True by (simp add: borrowed_inv)
    ultimately show ?thesis by simp
  qed
qed

lemma close_row_open:
  assumes "return_date (if borrow_id r = rid \<and> return_date r = None then r\<lparr>return_date := Some d\<rparr> else r) = None"
  shows "(if borrow_id r = rid \<and> return_date r = None then r\<lparr>return_date := Some d\<rparr> else r) = r \<and>
         return_date r = None \<and> borrow_id r \<noteq> rid"
proof (cases "borrow_id r = rid \<and> return_date r = None")
  case True
  then have e: "(if borrow_id r = rid \<and> return_date r = None then r\<lparr>return_date := Some d\<rparr> else r) =
      r\<lparr>return_date := Some d\<rparr>"
    by (rule if_P)
  from assms have "return_date (r\<lparr>return_date := Some d\<rparr>) = None" unfolding e .
  then show ?thesis by simp
next
  case False
  then have e: "(if borrow_id r = rid \<and> return_date r = None then r\<lparr>return_date := Some d\<rparr> else r) = r"
    by (rule if_not_P)
  from assms have "return_date r = None" unfolding e .
  with False e show ?thesis by blast
qed

lemma close_row_book:
  "b_book_id (if borrow_id r = rid \<and> return_date r = None then r\<lparr>return_date := d\<rparr> else r) = b_book_id r"
  by (cases "borrow_id r = rid \<and> return_date r = None") simp_all

lemma returned_books:
  "Books (set_available b v (snd (close_borrow rid d s))) =
     map (\<lambda>k. if book_id k = b then k\<lparr>available := v\<rparr> else k) (Books s)"
  by (simp add: set_available_def close_borrow_def)

lemma available_after_set:
  assumes a: "available_row b (set_available b0 1 (snd (close_borrow rid d s)))"
  shows "b = b0 \<or> available_row b s"
proof -
  from a obtain k where k: "k \<in> set (Books s)"
      and p: "book_id (if book_id k = b0 then k\<lparr>available := 1\<rparr> else k) = b"
             "available (if book_id k = b0 then k\<lparr>available := 1\<rparr> else k) = 1"
    unfolding available_row_def returned_books by auto
  show ?thesis
  proof (cases "book_id k = b0")
    case True
    with p(1) show ?thesis by (simp add: set_row_id)
  next
    case False
    then have e: "(if book_id k = b0 then k\<lparr>available := 1\<rparr> else k) = k"
      by (rule if_not_P)
    from p have "book_id k = b \<and> available k = 1" unfolding e by (rule conjI)
    with k have "available_row b s" unfolding available_row_def by blast
    then show ?thesis ..
  qed
qed

lemma returned_inv:
  assumes inv: "ledger_inv s" and rows: "open_rows rid s = row # rest"
  shows "ledger_inv (set_available (b_book_id row) 1 (snd (close_borrow rid (Some d) s)))"
proof -
  define s' where "s' = set_available (b_book_id row) 1 (snd (close_borrow rid (Some d) s))"
  define c :: "borrow \<Rightarrow> borrow" where "c = (\<lambda>r. if borrow_id r = rid \<and> return_date r = None then r\<lparr>return_date := Some d\<rparr> else r)"
  have bw: "Borrow s' = map c (Borrow s)"
    unfolding s'_def c_def by (rule close_borrow_rows)
  have refs: "\<forall>r \<in> set (Borrow s). \<exists>k \<in> set (Books s). book_id k = b_book_id r"
    using inv by (simp add: ledger_inv_def)
  have old: "\<forall>r \<in> set (Borrow s). return_date r = None \<longrightarrow> \<not> available_row (b_book_id r) s"
    using inv by (simp add: ledger_inv_def)
  have cnt: "\<forall>b. open_count b s \<le> 1"
    using inv by (simp add: ledger_inv_def)
  have "row \<in> set (open_rows rid s)" using rows by simp
  then have row: "row \<in> set (Borrow s)" "borrow_id row = rid" "return_date row = None"
    by (simp_all add: open_rows_def)
  have c_open: "return_date (c r) = None \<Longrightarrow> c r = r \<and> return_date r = None \<and> borrow_id r \<noteq> rid" for r
    unfolding c_def by (rule close_row_open)
  have c_book: "b_book_id (c r) = b_book_id r" for r
    unfolding c_def by (rule close_row_book)
  have one: "\<forall>b. open_count b s' \<le> 1"
  proof
    fix b
    have "open_count b s' = length (filter (\<lambda>r. b_book_id (c r) = b \<and> return_date (c r) = None) (Borrow s))"
      by (simp add: open_count_def bw filter_map o_def)
    also have "\<dots> \<le> length (filter (\<lambda>r. b_book_id r = b \<and> return_date r = None) (Borrow s))"
    proof (rule filter_length_mono)
      fix r assume "b_book_id (c r) = b \<and> return_date (c r) = None"
      then show "b_book_id r = b \<and> return_date r = None"
        using c_open [of r] c_book [of r] by simp
    qed
    also have "\<dots> = open_count b s" by (simp add: open_count_def)
    also have "\<dots> \<le> 1" using cnt by blast
    finally show "open_count b s' \<le> 1" .
  qed
  have two: "\<forall>r' \<in> set (Borrow s'). return_date r' = None \<longrightarrow> \<not> available_row (b_book_id r') s'"
  proof (intro ballI impI)
    fix r' assume r': "r' \<in> set (Borrow s')" and o: "return_date r' = None"
    from r' obtain r where r: "r \<in> set (Borrow s)" and e: "r' = c r"
      unfolding bw by auto
    from o e have "return_date (c r) = None" by simp
    then have keep: "c r = r" "return_date r = None" "borrow_id r \<noteq> rid"
      using c_open [of r] by simp_all
    have same: "r' = r" using e keep(1) by simp
    show "\<not> available_row (b_book_id r') s'"
    proof
      assume "available_row (b_book_id r') s'"
      then have "b_book_id r = b_book_id row \<or> available_row (b_book_id r) s"
        unfolding s'_def same by (rule available_after_set)
      then show False
      proof
        assume b: "b_book_id r = b_book_id row"
        have ne: "r \<noteq> row" using keep(3) row(2) by auto
        have "2 \<le> length (filter (\<lambda>x. b_book_id x = b_book_id row \<and> return_date x = None) (Borrow s))"
          using r row(1) ne by (rule two_in_filter) (simp_all add: b keep(2) row(3))
        then have "2 \<le> open_count (b_book_id row) s" by (simp add: open_count_def)
        moreover have "open_count (b_book_id row) s \<le> 1" using cnt by blast
        ultimately show False by simp
      next
        assume "available_row (b_book_id r) s"
        with old r keep(2) show False by blast
      qed
    qed
  qed
  have bk: "map book_id (Books s') = map book_id (Books s)"
    unfolding s'_def returned_books by (simp add: set_row_id)
  have three: "\<forall>r' \<in> set (Borrow s'). \<exists>k \<in> set (Books s'). book_id k = b_book_id r'"
  proof
    fix r' assume "r' \<in> set (Borrow s')"
    then obtain r where r: "r \<in> set (Borrow s)" and e: "r' = c r"
      unfolding bw by auto
    from refs r obtain k where "k \<in> set (Books s)" "book_id k = b_book_id r" by blast
    then have "b_book_id r \<in> set (map book_id (Books s))" by force
    then have "b_book_id r' \<in> set (map book_id (Books s'))"
      unfolding bk e c_book .
    then show "\<exists>k \<in> set (Books s'). book_id k = b_book_id r'" by auto
  qed
  show ?thesis
    unfolding s'_def [symmetric] ledger_inv_def using one two three by blast
qed

lemma return_book_inv:
  assumes inv: "ledger_inv s"
  shows "ledger_inv (snd (return_book rid (Some d) s))"
proof (cases "open_rows rid s")
  case Nil
  then have "return_book rid (Some d) s = (Inr False, s)" by (rule return_book_none)
  with inv show ?thesis by simp
next
  case (Cons row rest)
  then have "snd (return_book rid (Some d) s) =
      set_available (b_book_id row) 1 (snd (close_borrow rid (Some d) s))"
    by (simp add: return_book_some)
  moreover have "ledger_inv (set_available (b_book_id row) 1 (snd (close_borrow rid (Some d) s)))"
    using inv Cons by (rule returned_inv)
  ultimately show ?thesis by simp
qed

lemma exec_inv:
  assumes "ledger_call c" and inv: "ledger_inv s"
  shows "ledger_inv (exec c s)"
proof (cases c)
  case (Add_book t a y)
  then show ?thesis using inv by (simp add: add_book_inv)
next
  case (Update_book_availability bid v)
  with assms(1) show ?thesis by simp
next
  case (Delete_book bid)
  then show ?thesis using inv by (simp add: delete_book_inv)
next
  case (Create_user n p e)
  have "ledger_inv (snd (create_user n p e s))"
    by (rule ledger_inv_same [OF create_user_frame [THEN conjunct1] create_user_frame [THEN conjunct2] inv])
  with Create_user show ?thesis by simp
next
  case (Update_user uid n p e)
  have "ledger_inv (snd (update_user uid n p e s))"
    by (rule ledger_inv_same [OF update_user_frame [THEN conjunct1] update_user_frame [THEN conjunct2] inv])
  with Update_user show ?thesis by simp
next
  case (Delete_user uid)
  have "ledger_inv (snd (delete_user uid s))"
    by (rule ledger_inv_same [OF delete_user_frame [THEN conjunct1] delete_user_frame [THEN conjunct2] inv])
  with Delete_user show ?thesis by simp
next
  case (Borrow_book uid bid d)
  then show ?thesis using inv by (simp add: borrow_book_inv)
next
  case (Return_book rid d)
  with assms(1) obtain date where "d = Some date" by (cases d) auto
  with Return_book show ?thesis using inv by (simp add: return_book_inv)
qed

lemma run_inv: "\<forall>c \<in> set cs. ledger_call c \<Longrightarrow> ledger_inv s \<Longrightarrow> ledger_inv (run cs s)"
proof (induction cs arbitrary: s)
  case Nil
  then show ?case by simp
next
  case (Cons c cs)
  from Cons.prems have "ledger_inv (exec c s)" by (simp add: exec_inv)
  moreover from Cons.prems have "\<forall>c \<in> set cs. ledger_call c" by simp
  ultimately show ?case using Cons.IH by simp
qed

text \<open>
  C1, as the code has it. From the fresh store, after any sequence of calls that uses
  neither \<^verbatim>\<open>update_book_availability\<close> nor a \<^verbatim>\<open>return_book\<close> without a date, no
  copy has more than one open Borrow row.
\<close>

theorem one_open_borrow_per_copy:
  assumes "\<forall>c \<in> set cs. ledger_call c"
  shows "open_count bid (run cs init_db) \<le> 1"
proof -
  have "ledger_inv (run cs init_db)"
    using assms ledger_inv_init by (rule run_inv)
  then show ?thesis by (simp add: ledger_inv_def)
qed

theorem one_open_borrow_per_copy_witness:
  "open_count 1 (run session init_db) = 1 \<and> length (Borrow (run session init_db)) = 2"
proof -
  have calls: "\<forall>c \<in> set session. ledger_call c"
    by (simp add: session_def)
  have le: "open_count 1 (run session init_db) \<le> 1"
    using calls by (rule one_open_borrow_per_copy)
  have ge: "1 \<le> open_count 1 (run session init_db)"
    by (simp add: session_def init_db_def add_book_def create_user_def email_taken_def
        borrow_book_def user_exists_def mark_unavailable_def insert_borrow_def
        return_book_def open_rows_def close_borrow_def set_available_def next_rowid_def open_count_def)
  have len: "length (Borrow (run session init_db)) = 2"
    by (simp add: session_def init_db_def add_book_def create_user_def email_taken_def
        borrow_book_def user_exists_def mark_unavailable_def insert_borrow_def
        return_book_def open_rows_def close_borrow_def set_available_def next_rowid_def)
  from le ge have "open_count 1 (run session init_db) = 1" by simp
  with len show ?thesis by simp
qed

text \<open>
  C1 as stated, with the override among the calls, fails: after a borrow of copy 1, the
  override sets its flag back to 1 and a second borrow of the same copy goes through,
  which leaves two open Borrow rows on copy 1.
\<close>

theorem one_open_borrow_per_copy_counterexample:
  "open_count 1 (run override init_db) = 2"
  by (simp add: override_def init_db_def add_book_def create_user_def email_taken_def
      borrow_book_def user_exists_def mark_unavailable_def insert_borrow_def
      update_book_availability_def rowcount_book_def set_available_def next_rowid_def open_count_def)

text \<open>
  The other way to the same state: a \<^verbatim>\<open>return_book\<close> whose date is None writes NULL
  over NULL, counts the row as updated, frees the copy and leaves the row open.
\<close>

lemma return_without_date_reopens:
  "open_count 1 (run [Add_book ''Harry Potter'' ''J.K. Rowling'' (Some 1997),
      Create_user ''Alice Cohen'' None None,
      Borrow_book 1 1 (Some ''2025-12-19''),
      Return_book 1 None,
      Borrow_book 1 1 (Some ''2025-12-20'')] init_db) = 2"
  by (simp add: init_db_def add_book_def create_user_def
      borrow_book_def user_exists_def mark_unavailable_def insert_borrow_def
      return_book_def open_rows_def close_borrow_def set_available_def next_rowid_def open_count_def)

section \<open>The most-borrowed report\<close>

lemma count_swap:
  "sum_list (map (\<lambda>r. length (filter (\<lambda>k. R r k) ks)) rs) =
   sum_list (map (\<lambda>k. length (filter (\<lambda>r. R r k) rs)) ks)"
proof (induction rs)
  case Nil
  show ?case by simp
next
  case (Cons r rs)
  have split: "sum_list (map (\<lambda>k. length (filter (\<lambda>r. R r k) (r # rs))) ks) =
      length (filter (\<lambda>k. R r k) ks) + sum_list (map (\<lambda>k. length (filter (\<lambda>r. R r k) rs)) ks)"
    by (induction ks) simp_all
  show ?case by (simp only: split list.map sum_list.Cons Cons.IH)
qed

lemma length_filter_concat:
  "length (filter P (concat xss)) = sum_list (map (\<lambda>xs. length (filter P xs)) xss)"
  by (induction xss) simp_all

lemma group_count_sum:
  "group_count (borrow_join_books s) (t, a) =
     sum_list (map (\<lambda>k. borrow_count_of_book (book_id k) s)
                   (filter (\<lambda>k. title k = t \<and> author k = a) (Books s)))"
proof -
  have inner: "length (filter (\<lambda>(r, k). (title k, author k) = (t, a))
        (map (Pair r) (filter (\<lambda>k. book_id k = b_book_id r) (Books s)))) =
      length (filter (\<lambda>k. book_id k = b_book_id r \<and> title k = t \<and> author k = a) (Books s))" for r
    by (simp add: filter_map o_def conj_commute)
  have "group_count (borrow_join_books s) (t, a) =
      sum_list (map (\<lambda>r. length (filter (\<lambda>k. book_id k = b_book_id r \<and> title k = t \<and> author k = a)
                                     (Books s))) (Borrow s))"
    by (simp add: group_count_def borrow_join_books_def length_filter_concat o_def inner)
  also have "\<dots> = sum_list (map (\<lambda>k. length (filter (\<lambda>r. book_id k = b_book_id r \<and> title k = t \<and> author k = a)
                                     (Borrow s))) (Books s))"
    by (rule count_swap)
  also have "\<dots> = sum_list (map (\<lambda>k. length (filter (\<lambda>r. book_id k = b_book_id r \<and> title k = t \<and> author k = a)
                                     (Borrow s))) (filter (\<lambda>k. title k = t \<and> author k = a) (Books s)))"
    by (rule sum_list_map_filter [symmetric]) auto
  also have "\<dots> = sum_list (map (\<lambda>k. borrow_count_of_book (book_id k) s)
                   (filter (\<lambda>k. title k = t \<and> author k = a) (Books s)))"
    by (rule arg_cong [where f = sum_list], rule map_cong)
       (auto simp: borrow_count_of_book_def eq_commute intro: arg_cong [where f = length] filter_cong)
  finally show ?thesis .
qed

lemma group_count_pos:
  assumes "g \<in> set (map (\<lambda>(r, k). (title k, author k)) j)"
  shows "0 < group_count j g"
proof -
  from assms obtain x where "x \<in> set j" "(\<lambda>(r, k). (title k, author k)) x = g" by auto
  then have "x \<in> set (filter (\<lambda>(r, k). (title k, author k) = g) j)" by auto
  then have "0 < length (filter (\<lambda>(r, k). (title k, author k) = g) j)"
    by (rule length_pos_if_in_set)
  then show ?thesis by (simp add: group_count_def)
qed

lemma most_borrowed_order:
  "most_borrowed_books s = rev (sort_key (\<lambda>(t, a, c). c) (rev (borrow_groups s)))"
  by (simp add: most_borrowed_books_def)

lemma set_most_borrowed: "set (most_borrowed_books s) = set (borrow_groups s)"
  by (simp add: most_borrowed_order)

lemma borrow_groups_keys:
  "map (\<lambda>(t, a, c). (t, a)) (borrow_groups s) =
     remdups (map (\<lambda>(r, k). (title k, author k)) (borrow_join_books s))"
  by (simp add: borrow_groups_def o_def)

lemma most_borrowed_sorted:
  "sorted_wrt (\<ge>) (map (\<lambda>(t, a, c). c) (most_borrowed_books s))"
proof -
  have "map (\<lambda>(t, a, c). c) (most_borrowed_books s) =
      rev (map (\<lambda>(t, a, c). c) (sort_key (\<lambda>(t, a, c). c) (rev (borrow_groups s))))"
    by (simp add: most_borrowed_order rev_map)
  moreover have "sorted (map (\<lambda>(t, a, c). c) (sort_key (\<lambda>(t, a, c). c) (rev (borrow_groups s))))"
    by (rule sorted_sort_key)
  ultimately show ?thesis
    by (simp add: sorted_wrt_rev)
qed

lemma most_borrowed_distinct:
  "distinct (map (\<lambda>(t, a, c). (t, a)) (most_borrowed_books s))"
proof -
  have "distinct (map (\<lambda>(t, a, c). (t, a)) (borrow_groups s))"
    by (simp only: borrow_groups_keys distinct_remdups)
  then have d: "distinct (borrow_groups s)" and i: "inj_on (\<lambda>(t, a, c). (t, a)) (set (borrow_groups s))"
    by (simp_all add: distinct_map)
  have "distinct (most_borrowed_books s)"
    using d by (simp add: most_borrowed_order)
  with i show ?thesis
    by (simp add: distinct_map set_most_borrowed)
qed

text \<open>
  C8. \<^verbatim>\<open>most_borrowed_books\<close> groups by \<open>(title, author)\<close>, not by copy: the counts
  of its entries never increase along the list, no pair \<open>(title, author)\<close> has two
  entries, the count of an entry is the sum, over all copies of that title and author,
  of the number of Borrow rows of the copy, and every borrowed copy of the catalogue
  is covered by the entry of its title and author.
\<close>

theorem most_borrowed_books_groups:
  "sorted_wrt (\<ge>) (map (\<lambda>(t, a, c). c) (most_borrowed_books s)) \<and>
   distinct (map (\<lambda>(t, a, c). (t, a)) (most_borrowed_books s)) \<and>
   (\<forall>(t, a, c) \<in> set (most_borrowed_books s).
      0 < c \<and>
      c = sum_list (map (\<lambda>k. borrow_count_of_book (book_id k) s)
                        (filter (\<lambda>k. title k = t \<and> author k = a) (Books s)))) \<and>
   (\<forall>r \<in> set (Borrow s). \<forall>k \<in> set (Books s). book_id k = b_book_id r \<longrightarrow>
      (\<exists>c. (title k, author k, c) \<in> set (most_borrowed_books s)))"
proof (intro conjI)
  show "sorted_wrt (\<ge>) (map (\<lambda>(t, a, c). c) (most_borrowed_books s))"
    by (rule most_borrowed_sorted)
  show "distinct (map (\<lambda>(t, a, c). (t, a)) (most_borrowed_books s))"
    by (rule most_borrowed_distinct)
  show "\<forall>(t, a, c) \<in> set (most_borrowed_books s).
      0 < c \<and>
      c = sum_list (map (\<lambda>k. borrow_count_of_book (book_id k) s)
                        (filter (\<lambda>k. title k = t \<and> author k = a) (Books s)))"
  proof (clarify, rule conjI)
    fix t a c assume "(t, a, c) \<in> set (most_borrowed_books s)"
    then have "(t, a, c) \<in> set (borrow_groups s)" by (simp only: set_most_borrowed)
    then have g: "(t, a) \<in> set (map (\<lambda>(r, k). (title k, author k)) (borrow_join_books s))"
      and c: "c = group_count (borrow_join_books s) (t, a)"
      by (auto simp: borrow_groups_def)
    show "0 < c" unfolding c using g by (rule group_count_pos)
    show "c = sum_list (map (\<lambda>k. borrow_count_of_book (book_id k) s)
                        (filter (\<lambda>k. title k = t \<and> author k = a) (Books s)))"
      unfolding c by (rule group_count_sum)
  qed
  show "\<forall>r \<in> set (Borrow s). \<forall>k \<in> set (Books s). book_id k = b_book_id r \<longrightarrow>
      (\<exists>c. (title k, author k, c) \<in> set (most_borrowed_books s))"
  proof (intro ballI impI)
    fix r k assume r: "r \<in> set (Borrow s)" and k: "k \<in> set (Books s)" and e: "book_id k = b_book_id r"
    have "(r, k) \<in> set (borrow_join_books s)"
      using r k e by (auto simp: borrow_join_books_def)
    then have "(title k, author k) \<in> set (map (\<lambda>(r, k). (title k, author k)) (borrow_join_books s))"
      by force
    then have "(title k, author k, group_count (borrow_join_books s) (title k, author k)) \<in> set (borrow_groups s)"
      by (force simp: borrow_groups_def)
    then show "\<exists>c. (title k, author k, c) \<in> set (most_borrowed_books s)"
      unfolding set_most_borrowed by blast
  qed
qed

theorem most_borrowed_books_groups_witness:
  "most_borrowed_books busy =
     [(''Harry Potter'', ''J.K. Rowling'', 3), (''Clean Code'', ''Robert C. Martin'', 1)] \<and>
   borrow_count_of_book 1 busy = 2 \<and> borrow_count_of_book 2 busy = 1 \<and>
   borrow_count_of_book 1 busy + borrow_count_of_book 2 busy = 3"
proof -
  have report: "most_borrowed_books busy =
     [(''Harry Potter'', ''J.K. Rowling'', 3), (''Clean Code'', ''Robert C. Martin'', 1)]"
    by (simp add: most_borrowed_books_def borrow_groups_def borrow_join_books_def group_count_def
        busy_def stocked_def)
  have mem: "(''Harry Potter'', ''J.K. Rowling'', 3) \<in> set (most_borrowed_books busy)"
    unfolding report by simp
  have copies: "map book_id (filter (\<lambda>k. title k = ''Harry Potter'' \<and> author k = ''J.K. Rowling'') (Books busy)) = [1, 2]"
    by (simp add: busy_def stocked_def)
  have "case (''Harry Potter'', ''J.K. Rowling'', 3::nat) of (t, a, c) \<Rightarrow>
      0 < c \<and> c = sum_list (map (\<lambda>k. borrow_count_of_book (book_id k) busy)
                        (filter (\<lambda>k. title k = t \<and> author k = a) (Books busy)))"
    by (rule most_borrowed_books_groups [of busy, THEN conjunct2, THEN conjunct2, THEN conjunct1,
          THEN bspec, OF mem])
  then have "3 = sum_list (map (\<lambda>b. borrow_count_of_book b busy)
      (map book_id (filter (\<lambda>k. title k = ''Harry Potter'' \<and> author k = ''J.K. Rowling'') (Books busy))))"
    by (simp add: o_def)
  then have total: "borrow_count_of_book 1 busy + borrow_count_of_book 2 busy = 3"
    unfolding copies by simp
  have one: "borrow_count_of_book 1 busy = 2"
    by (simp add: borrow_count_of_book_def busy_def stocked_def)
  have two: "borrow_count_of_book 2 busy = 1"
    by (simp add: borrow_count_of_book_def busy_def stocked_def)
  show ?thesis
    by (rule conjI [OF report conjI [OF one conjI [OF two total]]])
qed

end
